theory Spec2Isabelle
  imports Main
begin

section \<open>C characters and strings\<close>

text \<open>
  A C \<^verbatim>\<open>char\<close> is one byte, as an Isabelle \<^typ>\<open>char\<close> is; a C string is the list of
  its bytes before the terminating NUL. Whether plain \<^verbatim>\<open>char\<close> is signed is fixed by
  the platform's ABI, not by the source (signed on x86-64 and on Apple arm64, unsigned on
  Linux arm): functions whose result depends on it take it as their first argument.
\<close>

definition ord :: "char \<Rightarrow> int" where
  "ord c = of_char c"

definition char_val :: "bool \<Rightarrow> char \<Rightarrow> int" where
  \<comment> \<open>the value of a \<^verbatim>\<open>char\<close> after integer promotion\<close>
  "char_val signed_char c = (if signed_char \<and> 128 \<le> ord c then ord c - 256 else ord c)"

definition to_int32 :: "int \<Rightarrow> int" where
  \<comment> \<open>conversion to a 32-bit \<^verbatim>\<open>int\<close>, two's complement\<close>
  "to_int32 x = (x + 2 ^ 31) mod 2 ^ 32 - 2 ^ 31"

function dec_nat :: "nat \<Rightarrow> string" where
  "dec_nat n = (if n < 10 then [char_of (48 + n)] else dec_nat (n div 10) @ [char_of (48 + n mod 10)])"
  by pat_completeness auto
termination
  by (relation "measure id") auto

declare dec_nat.simps [simp del]

definition sprintf_d :: "int \<Rightarrow> string" where
  \<comment> \<open>what \<^verbatim>\<open>sprintf\<close> writes for \<^verbatim>\<open>%d\<close>\<close>
  "sprintf_d x = (if x < 0 then CHR ''-'' # dec_nat (nat (- x)) else dec_nat (nat x))"

section \<open>Hex/byte codec (idevice-app-runner.c)\<close>

text \<open>
  \<^verbatim>\<open>int2hex\<close> indexes the string literal \<^verbatim>\<open>"0123456789ABCDEF"\<close>, an array of 17 bytes with
  its NUL. An index outside the array is an out-of-bounds read, undefined in C: the
  model returns \<^const>\<open>None\<close> there.
\<close>

definition hexchars :: string where
  "hexchars = ''0123456789ABCDEF'' @ [CHR 0x00]"

definition int2hex :: "int \<Rightarrow> char option" where
  "int2hex x = (if 0 \<le> x \<and> x < int (length hexchars) then Some (hexchars ! nat x) else None)"

definition hex2int :: "char \<Rightarrow> int" where
  "hex2int c =
     (if ord CHR ''0'' \<le> ord c \<and> ord c \<le> ord CHR ''9'' then ord c - ord CHR ''0''
      else if ord CHR ''a'' \<le> ord c \<and> ord c \<le> ord CHR ''f'' then 10 + ord c - ord CHR ''a''
      else if ord CHR ''A'' \<le> ord c \<and> ord c \<le> ord CHR ''F'' then 10 + ord c - ord CHR ''A''
      else - 1)"

text \<open>
  \<^verbatim>\<open>tohex(to_s, from_s, n)\<close>: the argument is the \<open>n\<close> bytes at \<^verbatim>\<open>from_s\<close>, the result the
  bytes written at \<^verbatim>\<open>to_s\<close> before the final NUL. \<^verbatim>\<open>*f >> 4\<close> shifts the promoted
  \<^verbatim>\<open>char\<close>, arithmetically when it is negative (as gcc and clang do).
\<close>

fun tohex :: "bool \<Rightarrow> string \<Rightarrow> string option" where
  "tohex sg [] = Some []"
| "tohex sg (c # cs) =
     (case int2hex (drop_bit 4 (char_val sg c)) of
        None \<Rightarrow> None
      | Some hi \<Rightarrow>
          (case int2hex (and (char_val sg c) (mask 4)) of
             None \<Rightarrow> None
           | Some lo \<Rightarrow> map_option (\<lambda>r. hi # lo # r) (tohex sg cs)))"

text \<open>
  \<^verbatim>\<open>fromhex(to_s, from_s, n)\<close>: the first argument is the memory from \<^verbatim>\<open>from_s\<close> on, the
  result the bytes written at \<^verbatim>\<open>to_s\<close> before the final NUL. Each round reads two
  characters, also when \<open>n\<close> is odd. \<^verbatim>\<open>i1 << 4 | i2\<close> is computed on \<^verbatim>\<open>int\<close> (with \<open>-1\<close> for
  a character that is no hex digit, shifted as two's complement) and stored as a byte.
\<close>

definition hexbyte :: "char \<Rightarrow> char \<Rightarrow> char" where
  "hexbyte c1 c2 = char_of (or (push_bit 4 (hex2int c1)) (hex2int c2))"

fun fromhex :: "string \<Rightarrow> nat \<Rightarrow> string" where
  "fromhex (c1 # c2 # rest) n = (if 0 < n then hexbyte c1 c2 # fromhex rest (n - 2) else [])"
| "fromhex _ n = []"

section \<open>Packet builders (idevice-app-runner.c)\<close>

definition create_env_packet :: "bool \<Rightarrow> string \<Rightarrow> string option" where
  "create_env_packet sg env =
     map_option (\<lambda>h. ''$QEnvironmentHexEncoded:'' @ h @ ''#00'') (tohex sg env)"

text \<open>
  \<^verbatim>\<open>create_args_packet(app_path, args)\<close>: \<^verbatim>\<open>args\<close> is \<^verbatim>\<open>NULL\<close> (\<^const>\<open>None\<close>) or an array of
  strings ended by \<^verbatim>\<open>NULL\<close>. The loop runs over \<^verbatim>\<open>app_path\<close> (index 0) and then the
  arguments (index \<open>i\<close> is \<^verbatim>\<open>args[i-1]\<close>) up to the first \<^verbatim>\<open>NULL\<close>. The model gives the
  bytes written; the size of the allocation (computed with \<^verbatim>\<open>log10\<close>) is not modelled.
\<close>

fun args_tokens :: "bool \<Rightarrow> nat \<Rightarrow> string list \<Rightarrow> string option" where
  "args_tokens sg i [] = Some []"
| "args_tokens sg i (s # ss) =
     (case tohex sg s of
        None \<Rightarrow> None
      | Some h \<Rightarrow>
          map_option
            (\<lambda>r. (if i \<noteq> 0 then '','' else '''')
                  @ sprintf_d (to_int32 (2 * to_int32 (int (length s)))) @ '',''
                  @ sprintf_d (to_int32 (int i)) @ '','' @ h @ r)
            (args_tokens sg (Suc i) ss))"

definition create_args_packet :: "bool \<Rightarrow> string option \<Rightarrow> string list option \<Rightarrow> string option" where
  "create_args_packet sg app_path args =
     map_option (\<lambda>t. ''$A'' @ t @ ''#00'')
       (args_tokens sg 0
          (case app_path of
             None \<Rightarrow> []
           | Some p \<Rightarrow> p # (case args of None \<Rightarrow> [] | Some as \<Rightarrow> as)))"

section \<open>Properties of the codec\<close>

lemma int2hex_hex2int:
  assumes "0 \<le> x" and "x < 16"
  shows "\<exists>h. int2hex x = Some h \<and> hex2int h = x"
proof -
  have all: "\<forall>n \<in> set [0..<16]. map_option hex2int (int2hex (int n)) = Some (int n)"
    by code_simp
  from assms have "nat x \<in> set [0..<16]"
    by simp
  with all have "map_option hex2int (int2hex (int (nat x))) = Some (int (nat x))"
    by blast
  with assms show ?thesis
    by auto
qed

lemma nibbles_ident: "or (push_bit 4 (drop_bit 4 v)) (and v (mask 4)) = (v::int)"
  by (rule bit_eqI) (auto simp: bit_simps)

lemma ord_range: "0 \<le> ord c \<and> ord c < 256"
proof -
  have "ord c = int (of_char c)"
    by (simp add: ord_def of_nat_of_char)
  moreover have "of_char c < (256::nat)"
    by simp
  ultimately show ?thesis
    by simp
qed

lemma tohex_char:
  assumes "\<not> sg \<or> ord c < 128"
  shows "\<exists>hi lo. int2hex (drop_bit 4 (char_val sg c)) = Some hi
           \<and> int2hex (and (char_val sg c) (mask 4)) = Some lo \<and> hexbyte hi lo = c"
proof -
  let ?v = "char_val sg c"
  from assms have v: "?v = ord c"
    by (auto simp: char_val_def)
  have hi_range: "0 \<le> drop_bit 4 ?v \<and> drop_bit 4 ?v < 16"
    using ord_range [of c] unfolding v drop_bit_eq_div by (simp; arith)
  have lo_range: "0 \<le> and ?v (mask 4) \<and> and ?v (mask 4) < 16"
    using ord_range [of c] unfolding v take_bit_eq_mask [symmetric] take_bit_eq_mod by simp
  from hi_range obtain hi where hi: "int2hex (drop_bit 4 ?v) = Some hi" "hex2int hi = drop_bit 4 ?v"
    using int2hex_hex2int by blast
  from lo_range obtain lo where lo: "int2hex (and ?v (mask 4)) = Some lo" "hex2int lo = and ?v (mask 4)"
    using int2hex_hex2int by blast
  have "hexbyte hi lo = char_of ?v"
    by (simp add: hexbyte_def hi lo nibbles_ident)
  also have "\<dots> = c"
    by (simp add: v ord_def)
  finally show ?thesis
    using hi lo by blast
qed

lemma tohex_fromhex:
  assumes "\<not> sg \<or> (\<forall>c \<in> set b. ord c < 128)"
  shows "\<exists>h. tohex sg b = Some h \<and> length h = 2 * length b \<and> fromhex h (2 * length b) = b"
  using assms
proof (induction b)
  case Nil
  then show ?case by simp
next
  case (Cons c b)
  then obtain h where h: "tohex sg b = Some h" "length h = 2 * length b" "fromhex h (2 * length b) = b"
    by auto
  from Cons.prems have "\<not> sg \<or> ord c < 128"
    by auto
  then obtain hi lo where hl: "int2hex (drop_bit 4 (char_val sg c)) = Some hi"
      "int2hex (and (char_val sg c) (mask 4)) = Some lo" "hexbyte hi lo = c"
    using tohex_char by blast
  show ?case
    by (simp add: h hl)
qed

text \<open>
  Hex round trip where plain \<^verbatim>\<open>char\<close> is unsigned: every byte string is encoded to
  two characters per byte, and decoding them gives the string back.
\<close>

theorem tohex_fromhex_unsigned:
  "\<exists>h. tohex False b = Some h \<and> length h = 2 * length b \<and> fromhex h (2 * length b) = b"
  using tohex_fromhex [of False b] by simp

text \<open>
  Hex round trip where plain \<^verbatim>\<open>char\<close> is signed: the same holds for strings of 7-bit
  bytes.
\<close>

theorem tohex_fromhex_ascii:
  "\<forall>c \<in> set b. ord c < 128 \<Longrightarrow>
     \<exists>h. tohex sg b = Some h \<and> length h = 2 * length b \<and> fromhex h (2 * length b) = b"
  using tohex_fromhex [of sg b] by simp

text \<open>
  C6 (hex round trip, for every byte string). Where plain \<^verbatim>\<open>char\<close> is signed, \<^verbatim>\<open>tohex\<close> on
  a byte of \<open>0x80\<close> or more shifts a negative number and \<^verbatim>\<open>int2hex\<close> reads the digit table
  at a negative index: for \<open>0xC3\<close> the index is \<open>-4\<close>, no hex digit is defined for the high
  nibble, and the encoding that \<^verbatim>\<open>fromhex\<close> would have to decode does not exist.
\<close>

theorem tohex_signed_high_byte:
  "char_val True (CHR 0xC3) = - 61 \<and> drop_bit 4 (char_val True (CHR 0xC3)) = - 4
   \<and> int2hex (- 4) = None \<and> tohex True [CHR 0xC3] = None"
  by (simp add: char_val_def ord_def int2hex_def drop_bit_eq_div)

lemma tohex_examples: "tohex sg ''/a'' = Some ''2F61''" "tohex sg ''x'' = Some ''78''"
  by (simp_all add: int2hex_def char_val_def ord_def hexchars_def mask_eq_exp_minus_1
      drop_bit_eq_div)

lemma sprintf_d_examples:
  "sprintf_d (to_int32 (2 * to_int32 2)) = ''4''" "sprintf_d (to_int32 (2 * to_int32 1)) = ''2''"
  "sprintf_d (to_int32 0) = ''0''" "sprintf_d (to_int32 1) = ''1''"
  by code_simp+

text \<open>
  C7 (launch-packet shape). For the path \<^verbatim>\<open>"/a"\<close> and no arguments (a \<^verbatim>\<open>NULL\<close> array or an
  empty one) the packet is \<^verbatim>\<open>$A4,0,2F61#00\<close>; with the single argument \<^verbatim>\<open>"x"\<close> it is
  \<^verbatim>\<open>$A4,0,2F61,2,1,78#00\<close>, whatever the signedness of \<^verbatim>\<open>char\<close>.
\<close>

theorem create_args_packet_shape:
  "create_args_packet sg (Some ''/a'') None = Some ''$A4,0,2F61#00''
   \<and> create_args_packet sg (Some ''/a'') (Some []) = Some ''$A4,0,2F61#00''
   \<and> create_args_packet sg (Some ''/a'') (Some [''x'']) = Some ''$A4,0,2F61,2,1,78#00''"
  by (simp add: create_args_packet_def tohex_examples sprintf_d_examples del: tohex.simps)

section \<open>The session of idevice-app-runner.c\<close>

text \<open>
  The transport is a script of what the calls of \<^verbatim>\<open>idevice_connection_receive_timeout\<close> and
  \<^verbatim>\<open>idevice_connection_send\<close> will return, in order: a receive fails, or finds the given
  bytes waiting (none: the call times out with 0 bytes) and takes as many as the caller
  has room for, leaving the rest; a send fails or reports a number of bytes. When the
  script is used up, receives find nothing and sends are complete. What the program does
  to the outside is recorded in a trace.
\<close>

datatype recv_event = Recv_error | Recv_data string

datatype send_event = Send_error | Send_bytes nat

datatype io_event = Io_recv nat | Io_recv_failed | Io_send string | Io_sleep nat | Io_print string

text \<open>
  One record holds what \<^verbatim>\<open>main\<close>, \<^verbatim>\<open>struct in_struct\<close> and \<^verbatim>\<open>struct out_struct\<close> share: the
  error flag (both structs point to the same \<^verbatim>\<open>BOOL\<close> of \<^verbatim>\<open>main\<close>), the receive arena with
  its cursors as offsets from \<^verbatim>\<open>buf_begin\<close> (so \<^verbatim>\<open>buf_begin\<close> is 0 and \<^verbatim>\<open>buf_end\<close> is the
  capacity), the connection, a clock in seconds for \<^verbatim>\<open>time\<close>, and the two quit flags. The
  arena is a store from offsets to bytes. Diagnostics written to \<^verbatim>\<open>stderr\<close> and the debug
  flag, which only selects them, are left out.
\<close>

record session =
  error_flag :: bool
  buf :: "nat \<Rightarrow> char"
  buf_head :: nat
  buf_next :: nat
  buf_tail :: nat
  buf_end :: nat
  incoming :: "recv_event list"
  outgoing :: "send_event list"
  clock :: nat
  trace :: "io_event list"
  user_quit :: bool
  app_quit :: bool

text \<open>
  The session as \<^verbatim>\<open>main\<close> sets it up: \<^verbatim>\<open>error_flag = 0\<close>, then \<^verbatim>\<open>in_new\<close> with \<^verbatim>\<open>buf_len\<close>
  (\<^verbatim>\<open>16*1024\<close> in \<^verbatim>\<open>main\<close>) and \<^verbatim>\<open>out_new\<close>. The fresh arena is shown filled with NUL; the
  program reads no byte of it before the transport has written it. The allocations are
  taken to succeed: where \<^verbatim>\<open>malloc\<close> fails, \<^verbatim>\<open>in_new\<close> returns \<^verbatim>\<open>NULL\<close> and there is no session.
\<close>

definition in_new :: "recv_event list \<Rightarrow> send_event list \<Rightarrow> nat \<Rightarrow> session" where
  "in_new conn_in conn_out buf_len =
     \<lparr>error_flag = False, buf = (\<lambda>_. CHR 0x00), buf_head = 0, buf_next = 0, buf_tail = 0,
      buf_end = buf_len, incoming = conn_in, outgoing = conn_out, clock = 0, trace = [],
      user_quit = False, app_quit = False\<rparr>"

definition store_at :: "(nat \<Rightarrow> char) \<Rightarrow> nat \<Rightarrow> string \<Rightarrow> (nat \<Rightarrow> char)" where
  "store_at m p bs = (\<lambda>i. if p \<le> i \<and> i < p + length bs then bs ! (i - p) else m i)"

definition memmove :: "(nat \<Rightarrow> char) \<Rightarrow> nat \<Rightarrow> nat \<Rightarrow> nat \<Rightarrow> (nat \<Rightarrow> char)" where
  "memmove m dst src n = (\<lambda>i. if dst \<le> i \<and> i < dst + n then m (src + (i - dst)) else m i)"

definition view :: "(nat \<Rightarrow> char) \<Rightarrow> nat \<Rightarrow> nat \<Rightarrow> string" where
  "view m p n = map m [p ..< p + n]"

definition sleep :: "nat \<Rightarrow> session \<Rightarrow> session" where
  "sleep secs s = s\<lparr>clock := clock s + secs, trace := trace s @ [Io_sleep secs]\<rparr>"

text \<open>
  \<^verbatim>\<open>idevice_connection_receive_timeout(connection, buf_tail, avail, &bytes, 500)\<close>: the
  bytes received are written at \<^verbatim>\<open>buf_tail\<close> by the call itself.
\<close>

definition receive :: "nat \<Rightarrow> session \<Rightarrow> (bool \<times> string) \<times> session" where
  "receive avail s =
     (case incoming s of
        [] \<Rightarrow> ((True, []), s\<lparr>trace := trace s @ [Io_recv 0]\<rparr>)
      | Recv_error # es \<Rightarrow> ((False, []), s\<lparr>incoming := es, trace := trace s @ [Io_recv_failed]\<rparr>)
      | Recv_data bs # es \<Rightarrow>
          ((True, take avail bs),
           s\<lparr>buf := store_at (buf s) (buf_tail s) (take avail bs),
             incoming := (if length bs \<le> avail then es else Recv_data (drop avail bs) # es),
             trace := trace s @ [Io_recv (length (take avail bs))]\<rparr>))"

definition send :: "string \<Rightarrow> session \<Rightarrow> (bool \<times> nat) \<times> session" where
  "send str s =
     (case outgoing s of
        [] \<Rightarrow> ((True, length str), s\<lparr>trace := trace s @ [Io_send str]\<rparr>)
      | Send_error # es \<Rightarrow> ((False, 0), s\<lparr>outgoing := es, trace := trace s @ [Io_send str]\<rparr>)
      | Send_bytes k # es \<Rightarrow>
          ((True, min k (length str)), s\<lparr>outgoing := es, trace := trace s @ [Io_send str]\<rparr>))"

definition write_pkt :: "string \<Rightarrow> session \<Rightarrow> session" where
  "write_pkt str s =
     (if error_flag s then s
      else
        let r = send str s; s1 = snd r in
        if \<not> fst (fst r) \<or> snd (fst r) \<noteq> length str then s1\<lparr>error_flag := True\<rparr> else s1)"

text \<open>
  The receive loop of \<^verbatim>\<open>read_char\<close>. Each round without bytes ends in \<^verbatim>\<open>sleep(1)\<close>, so the
  clock passes the 10 second deadline after finitely many rounds: the loop terminates.
  (The time spent inside a receive call, at most 500 ms, is not counted.)
\<close>

datatype recv_status = Recv_failed | Recv_empty | Recv_ok

lemma clock_receive: "clock (snd (receive avail s)) = clock s"
  by (simp add: receive_def split: list.splits recv_event.splits)

function recv_loop :: "bool \<Rightarrow> nat \<Rightarrow> nat \<Rightarrow> session \<Rightarrow> recv_status \<times> session" where
  "recv_loop allow_empty avail start s =
     (let r = receive avail s; s1 = snd r; bytes = snd (fst r) in
      if \<not> fst (fst r) then (Recv_failed, s1\<lparr>error_flag := True\<rparr>)
      else if bytes = [] \<and> allow_empty then (Recv_empty, s1)
      else if bytes \<noteq> [] then (Recv_ok, s1\<lparr>buf_tail := buf_tail s1 + length bytes\<rparr>)
      else if 10 < clock s1 - start then (Recv_failed, s1\<lparr>error_flag := True\<rparr>)
      else recv_loop allow_empty avail start (sleep 1 s1))"
  by pat_completeness auto
termination
  by (relation "measure (\<lambda>(allow_empty, avail, start, s). start + 11 - clock s)")
    (auto simp: clock_receive sleep_def)

declare recv_loop.simps [simp del]

text \<open>The block under \<^verbatim>\<open>// Make room\<close>, after the test for a full buffer.\<close>

definition make_room :: "session \<Rightarrow> session" where
  "make_room s =
     (let offset = buf_head s; used = buf_tail s - buf_head s in
      s\<lparr>buf := (if offset \<noteq> 0 \<and> used \<noteq> 0 then memmove (buf s) 0 (buf_head s) used else buf s),
        buf_head := 0, buf_next := used, buf_tail := used\<rparr>)"

text \<open>
  \<^verbatim>\<open>read_char(in, &ch, to_allow_empty)\<close>: the first argument of the model says whether
  \<^verbatim>\<open>to_allow_empty\<close> is a pointer (\<^const>\<open>True\<close>) or \<^verbatim>\<open>NULL\<close>. The result is \<^verbatim>\<open>-1\<close>
  (\<open>RC_Fail\<close>), 0 with \<^verbatim>\<open>*to_allow_empty = 1\<close> (\<open>RC_Empty\<close>), or 0 with the character.
  Reading \<^verbatim>\<open>*in->buf_next\<close> at or beyond \<^verbatim>\<open>buf_end\<close> would be a read outside the arena,
  undefined in C; the model fails there, which makes every function total. Under the
  cursor invariant it does not happen (\<open>read_char_result\<close> below).
\<close>

datatype char_result = RC_Fail | RC_Empty | RC_Char char

definition take_char :: "session \<Rightarrow> char_result \<times> session" where
  "take_char s =
     (if buf_next s < buf_end s
      then (RC_Char (buf s (buf_next s)), s\<lparr>buf_next := buf_next s + 1\<rparr>)
      else (RC_Fail, s))"

definition refill :: "bool \<Rightarrow> session \<Rightarrow> char_result \<times> session" where
  "refill allow_empty s =
     (case recv_loop allow_empty (buf_end s - buf_tail s) (clock s) s of
        (Recv_failed, s1) \<Rightarrow> (RC_Fail, s1)
      | (Recv_empty, s1) \<Rightarrow> (RC_Empty, s1)
      | (Recv_ok, s1) \<Rightarrow> take_char s1)"

definition read_char :: "bool \<Rightarrow> session \<Rightarrow> char_result \<times> session" where
  "read_char allow_empty s =
     (if error_flag s then (RC_Fail, s)
      else if buf_next s = buf_tail s then
        (let avail = buf_end s - buf_tail s; len = buf_end s in
         if avail < len div 4 then
           (if avail = 0 \<and> buf_head s = 0 then (RC_Fail, s\<lparr>error_flag := True\<rparr>)
            else refill allow_empty (make_room s))
         else refill allow_empty s)
      else take_char s)"

text \<open>
  The bytes still to be read, buffered or in the script: every character read makes
  this smaller, which bounds the loop of \<^verbatim>\<open>read_pkt\<close> that looks for \<^verbatim>\<open>#\<close>.
\<close>

fun data_size :: "recv_event list \<Rightarrow> nat" where
  "data_size [] = 0"
| "data_size (Recv_error # es) = data_size es"
| "data_size (Recv_data bs # es) = length bs + data_size es"

definition pending :: "session \<Rightarrow> nat" where
  "pending s =
     (if buf_next s \<le> buf_tail s then buf_tail s - buf_next s + data_size (incoming s)
      else buf_end s - buf_next s)"

lemma receive_fields [simp]:
  "error_flag (snd (receive avail s)) = error_flag s"
  "buf_head (snd (receive avail s)) = buf_head s"
  "buf_next (snd (receive avail s)) = buf_next s"
  "buf_tail (snd (receive avail s)) = buf_tail s"
  "buf_end (snd (receive avail s)) = buf_end s"
  "clock (snd (receive avail s)) = clock s"
  "user_quit (snd (receive avail s)) = user_quit s"
  "app_quit (snd (receive avail s)) = app_quit s"
  "outgoing (snd (receive avail s)) = outgoing s"
  by (simp_all add: receive_def split: list.splits recv_event.splits)

lemma receive_bytes:
  "length (snd (fst (receive avail s))) \<le> avail"
  "data_size (incoming (snd (receive avail s))) + length (snd (fst (receive avail s)))
     = data_size (incoming s)"
  by (auto simp: receive_def split: list.splits recv_event.splits)

lemma receive_buf_below: "i < buf_tail s \<Longrightarrow> buf (snd (receive avail s)) i = buf s i"
  by (auto simp: receive_def store_at_def split: list.splits recv_event.splits)

lemma sleep_fields [simp]:
  "error_flag (sleep n s) = error_flag s"
  "buf (sleep n s) = buf s"
  "buf_head (sleep n s) = buf_head s"
  "buf_next (sleep n s) = buf_next s"
  "buf_tail (sleep n s) = buf_tail s"
  "buf_end (sleep n s) = buf_end s"
  "incoming (sleep n s) = incoming s"
  "outgoing (sleep n s) = outgoing s"
  "user_quit (sleep n s) = user_quit s"
  "app_quit (sleep n s) = app_quit s"
  by (simp_all add: sleep_def)

lemma recv_loop_result:
  "recv_loop a av st s = (r, s') \<Longrightarrow>
     buf_head s' = buf_head s \<and> buf_next s' = buf_next s \<and> buf_end s' = buf_end s
     \<and> user_quit s' = user_quit s \<and> app_quit s' = app_quit s \<and> outgoing s' = outgoing s
     \<and> (\<forall>i < buf_tail s. buf s' i = buf s i)
     \<and> (case r of
           Recv_ok \<Rightarrow> buf_tail s < buf_tail s' \<and> buf_tail s' \<le> buf_tail s + av
              \<and> data_size (incoming s') + (buf_tail s' - buf_tail s) = data_size (incoming s)
              \<and> error_flag s' = error_flag s
         | Recv_empty \<Rightarrow> a \<and> buf_tail s' = buf_tail s \<and> error_flag s' = error_flag s
              \<and> data_size (incoming s') = data_size (incoming s)
         | Recv_failed \<Rightarrow> error_flag s' \<and> buf_tail s' = buf_tail s)"
proof (induction a av st s arbitrary: r s' rule: recv_loop.induct)
  case (1 a av st s)
  let ?r = "receive av s"
  let ?s1 = "snd ?r"
  let ?bytes = "snd (fst ?r)"
  note bytes = receive_bytes [of av s]
  show ?case
  proof (cases "\<not> fst (fst ?r)")
    case True
    with "1.prems" show ?thesis
      by (auto simp: recv_loop.simps [of a av st s] Let_def receive_buf_below)
  next
    case ok: False
    show ?thesis
    proof (cases "?bytes = []")
      case False
      with ok "1.prems" bytes(1,2) show ?thesis
        by (auto simp: recv_loop.simps [of a av st s] Let_def receive_buf_below)
    next
      case empty: True
      show ?thesis
      proof (cases "a \<or> 10 < clock ?s1 - st")
        case True
        with ok empty "1.prems" bytes(2) show ?thesis
          by (auto simp: recv_loop.simps [of a av st s] Let_def receive_buf_below
              split: if_splits)
      next
        case False
        with ok empty "1.prems" have rec: "recv_loop a av st (sleep 1 ?s1) = (r, s')"
          by (simp add: recv_loop.simps [of a av st s] Let_def)
        from False ok empty have "\<not> \<not> fst (fst ?r)" "\<not> (?bytes = [] \<and> a)" "\<not> ?bytes \<noteq> []"
            "\<not> 10 < clock ?s1 - st"
          by auto
        from "1.IH" [OF refl refl refl this rec] bytes(2) empty show ?thesis
          by (auto simp: receive_buf_below split: recv_status.splits)
      qed
    qed
  qed
qed

lemma refill_result:
  assumes "refill a s = (r, s')"
  shows "buf_head s' = buf_head s \<and> buf_end s' = buf_end s \<and> user_quit s' = user_quit s
     \<and> app_quit s' = app_quit s \<and> outgoing s' = outgoing s
     \<and> (\<forall>i < buf_tail s. buf s' i = buf s i)
     \<and> (case r of
           RC_Char c \<Rightarrow> buf_next s < buf_end s \<and> buf_next s' = buf_next s + 1
              \<and> c = buf s' (buf_next s)
              \<and> buf_tail s < buf_tail s' \<and> buf_tail s' \<le> buf_tail s + (buf_end s - buf_tail s)
              \<and> data_size (incoming s') + (buf_tail s' - buf_tail s) = data_size (incoming s)
              \<and> error_flag s' = error_flag s
         | RC_Empty \<Rightarrow> a \<and> buf_next s' = buf_next s \<and> buf_tail s' = buf_tail s
              \<and> error_flag s' = error_flag s
         | RC_Fail \<Rightarrow> buf_next s' = buf_next s
              \<and> (buf_tail s' = buf_tail s \<and> error_flag s'
                  \<or> buf_tail s < buf_tail s' \<and> buf_tail s' \<le> buf_tail s + (buf_end s - buf_tail s)
                    \<and> buf_end s \<le> buf_next s \<and> error_flag s' = error_flag s))"
proof -
  obtain q s1 where loop: "recv_loop a (buf_end s - buf_tail s) (clock s) s = (q, s1)"
    by (cases "recv_loop a (buf_end s - buf_tail s) (clock s) s")
  note res = recv_loop_result [OF loop]
  show ?thesis
  proof (cases q)
    case Recv_failed
    with assms loop res show ?thesis
      by (auto simp: refill_def)
  next
    case Recv_empty
    with assms loop res show ?thesis
      by (auto simp: refill_def)
  next
    case Recv_ok
    with assms loop res show ?thesis
      by (auto simp: refill_def take_char_def split: if_splits)
  qed
qed

lemma read_char_pending:
  assumes "read_char a s = (RC_Char c, s')"
  shows "pending s' < pending s"
proof (cases "buf_next s = buf_tail s")
  case False
  with assms show ?thesis
    by (auto simp: read_char_def take_char_def pending_def split: if_splits)
next
  case True
  let ?s1 = "if buf_end s - buf_tail s < buf_end s div 4 then make_room s else s"
  from assms True have fill: "refill a ?s1 = (RC_Char c, s')"
    by (auto simp: read_char_def Let_def split: if_splits)
  have s1: "buf_next ?s1 = buf_tail ?s1" "incoming ?s1 = incoming s"
    using True by (auto simp: make_room_def Let_def)
  from refill_result [OF fill]
  have "buf_next s' = buf_next ?s1 + 1" "buf_tail ?s1 < buf_tail s'"
    "data_size (incoming s') + (buf_tail s' - buf_tail ?s1) = data_size (incoming ?s1)"
    by auto
  with s1 True show ?thesis
    by (auto simp: pending_def)
qed

function read_until_hash :: "session \<Rightarrow> bool \<times> session" where
  "read_until_hash s =
     (case read_char False s of
        (RC_Char ch, s1) \<Rightarrow> if ch = CHR ''#'' then (True, s1) else read_until_hash s1
      | (RC_Empty, s1) \<Rightarrow> (False, s1)
      | (RC_Fail, s1) \<Rightarrow> (False, s1))"
  by pat_completeness auto
termination
  by (relation "measure pending") (auto intro: read_char_pending [OF sym])

declare read_until_hash.simps [simp del]

text \<open>
  \<^verbatim>\<open>read_pkt(in, &s, &n, allow_empty)\<close>: the result is \<^const>\<open>None\<close> for \<^verbatim>\<open>-1\<close>, and for 0 the
  packet as the offset \<^verbatim>\<open>s\<close> into the arena and its length \<^verbatim>\<open>n\<close>. \<open>finish_pkt\<close> is the
  tail of the function, from \<^verbatim>\<open>size_t n = in->buf_next - in->buf_head\<close> on.
\<close>

definition finish_pkt :: "bool \<Rightarrow> session \<Rightarrow> (nat \<times> nat) option \<times> session" where
  "finish_pkt is_success s =
     (let n = buf_next s - buf_head s;
          s1 = (if is_success then s else s\<lparr>error_flag := True\<rparr>)
      in (if is_success then Some (buf_head s, n) else None, s1\<lparr>buf_head := buf_next s\<rparr>))"

definition read_pkt :: "bool \<Rightarrow> session \<Rightarrow> (nat \<times> nat) option \<times> session" where
  "read_pkt allow_empty s =
     (if error_flag s then (None, s)
      else
        (case read_char allow_empty s of
           (RC_Fail, s1) \<Rightarrow> (None, s1)
         | (RC_Empty, s1) \<Rightarrow> finish_pkt True s1
         | (RC_Char ch, s1) \<Rightarrow>
             if ch = CHR ''+'' then finish_pkt True s1
             else if ch = CHR ''$'' then
               (case read_until_hash s1 of
                  (False, s2) \<Rightarrow> (None, s2)
                | (True, s2) \<Rightarrow>
                    (case read_char False s2 of
                       (RC_Char c1, s3) \<Rightarrow>
                         if 0 \<le> hex2int c1 then
                           (case read_char False s3 of
                              (RC_Char c2, s4) \<Rightarrow> finish_pkt (0 \<le> hex2int c2) s4
                            | (RC_Empty, s4) \<Rightarrow> (None, s4)
                            | (RC_Fail, s4) \<Rightarrow> (None, s4))
                         else finish_pkt False s3
                     | (RC_Empty, s3) \<Rightarrow> (None, s3)
                     | (RC_Fail, s3) \<Rightarrow> (None, s3)))
             else finish_pkt False s1))"

text \<open>
  \<^verbatim>\<open>strncmp(s, expected, n) == 0\<close>, for the \<open>n\<close> bytes at \<^verbatim>\<open>s\<close> and the C string
  \<^verbatim>\<open>expected\<close>: at most \<open>n\<close> characters are compared, and the comparison also ends, as
  equal, at a NUL that both have at the same place (the end of \<^verbatim>\<open>expected\<close> is its NUL).
\<close>

fun strncmp0 :: "string \<Rightarrow> string \<Rightarrow> bool" where
  "strncmp0 [] e = True"
| "strncmp0 (c # cs) [] = (c = CHR 0x00)"
| "strncmp0 (c # cs) (d # ds) = (c = d \<and> (c = CHR 0x00 \<or> strncmp0 cs ds))"

definition read_pkt_assert :: "string option \<Rightarrow> session \<Rightarrow> bool \<times> session" where
  "read_pkt_assert expected s =
     (case read_pkt False s of
        (Some (p, n), s1) \<Rightarrow>
          (case expected of
             Some e \<Rightarrow>
               if strncmp0 (view (buf s1) p n) e then (True, s1)
               else (False, s1\<lparr>error_flag := True\<rparr>)
           | None \<Rightarrow> (False, s1\<lparr>error_flag := True\<rparr>))
      | (None, s1) \<Rightarrow> (False, s1))"

section \<open>The RUNNING loop of main\<close>

text \<open>
  \<^verbatim>\<open>fromhex\<close> as \<^verbatim>\<open>main\<close> calls it, decoding inside the arena: \<^verbatim>\<open>fromhex(s, s+2, k)\<close> writes
  at offset \<open>t\<close> what it has read at offset \<open>f\<close>. \<open>fromhex_at_view\<close> below shows that it
  computes what \<^const>\<open>fromhex\<close> computes, since the write cursor never passes the read cursor.
\<close>

function fromhex_at :: "(nat \<Rightarrow> char) \<Rightarrow> nat \<Rightarrow> nat \<Rightarrow> nat \<Rightarrow> (nat \<Rightarrow> char)" where
  "fromhex_at m t f fend =
     (if f < fend then fromhex_at (m(t := hexbyte (m f) (m (f + 1)))) (t + 1) (f + 2) fend
      else m(t := CHR 0x00))"
  by pat_completeness auto
termination
  by (relation "measure (\<lambda>(m, t, f, fend). fend - f)") auto

declare fromhex_at.simps [simp del]

text \<open>
  The C string at an offset of the arena, as \<^verbatim>\<open>printf("%s")\<close> and \<^verbatim>\<open>atoi\<close> read it: up to
  the first NUL (the scan is stopped at the end of the arena).
\<close>

function cstr :: "(nat \<Rightarrow> char) \<Rightarrow> nat \<Rightarrow> nat \<Rightarrow> string" where
  "cstr m p limit = (if p < limit \<and> m p \<noteq> CHR 0x00 then m p # cstr m (p + 1) limit else [])"
  by pat_completeness auto
termination
  by (relation "measure (\<lambda>(m, p, limit). limit - p)") auto

declare cstr.simps [simp del]

text \<open>
  \<^verbatim>\<open>atoi\<close>: white space, an optional sign, then decimal digits up to the first other
  character. ISO C leaves the result undefined when the number does not fit; the C
  libraries of the platforms in question (glibc, Apple's libc) compute
  \<^verbatim>\<open>(int) strtol(str, NULL, 10)\<close>: \<^verbatim>\<open>strtol\<close> saturates at \<^verbatim>\<open>LONG_MIN\<close> and \<^verbatim>\<open>LONG_MAX\<close> (a
  \<^verbatim>\<open>long\<close> of 64 bits), and the conversion to \<^verbatim>\<open>int\<close> keeps the low 32 bits.
\<close>

definition isspace :: "char \<Rightarrow> bool" where
  "isspace c = (c = CHR '' '' \<or> (9 \<le> ord c \<and> ord c \<le> 13))"

definition isdigit :: "char \<Rightarrow> bool" where
  "isdigit c = (ord CHR ''0'' \<le> ord c \<and> ord c \<le> ord CHR ''9'')"

fun atoi_digits :: "int \<Rightarrow> string \<Rightarrow> int" where
  "atoi_digits acc [] = acc"
| "atoi_digits acc (c # cs) =
     (if isdigit c then atoi_digits (10 * acc + (ord c - ord CHR ''0'')) cs else acc)"

fun atoi_signed :: "string \<Rightarrow> int" where
  "atoi_signed [] = 0"
| "atoi_signed (c # cs) =
     (if isspace c then atoi_signed cs
      else if c = CHR ''-'' then - atoi_digits 0 cs
      else if c = CHR ''+'' then atoi_digits 0 cs
      else atoi_digits 0 (c # cs))"

definition strtol_sat :: "int \<Rightarrow> int" where
  \<comment> \<open>the value \<^verbatim>\<open>strtol\<close> returns for a number: saturated to a 64-bit \<^verbatim>\<open>long\<close>\<close>
  "strtol_sat v = (if v < - (2 ^ 63) then - (2 ^ 63) else if 2 ^ 63 - 1 < v then 2 ^ 63 - 1 else v)"

definition atoi :: "string \<Rightarrow> int" where
  "atoi str = to_int32 (strtol_sat (atoi_signed str))"

definition printf_s :: "string \<Rightarrow> session \<Rightarrow> session" where
  "printf_s str s = s\<lparr>trace := trace s @ [Io_print str]\<rparr>"

text \<open>
  The locals of \<^verbatim>\<open>main\<close> that the loop uses, and one round of
  \<^verbatim>\<open>while (!user_quit) { ... }\<close>: the result says whether the round ended in \<^verbatim>\<open>continue\<close>
  or in \<^verbatim>\<open>break\<close>. The loop itself may run forever on an idle connection, so
  \<open>running\<close> takes a bound on the rounds and returns \<^const>\<open>None\<close> when it is used up.
\<close>

record main_state =
  sess :: session
  ret :: int
  spin_counter :: int

datatype loop_ctl = Continue | Break

definition running_iter :: "main_state \<Rightarrow> loop_ctl \<times> main_state" where
  "running_iter m =
     (case read_pkt True (sess m) of
        (None, s1) \<Rightarrow> (Break, m\<lparr>sess := s1\<rparr>)
      | (Some (p, n), s1) \<Rightarrow>
          if n = 0 then
            (if 5 < spin_counter m + 1
             then (Continue, m\<lparr>sess := sleep 1 s1, spin_counter := 0\<rparr>)
             else (Continue, m\<lparr>sess := s1, spin_counter := spin_counter m + 1\<rparr>))
          else
            let m1 = m\<lparr>spin_counter := 0\<rparr> in
            if n = 4 \<and> strncmp0 (view (buf s1) p 4) ''$#00'' then (Continue, m1\<lparr>sess := s1\<rparr>)
            else if 5 < n \<and> strncmp0 (view (buf s1) p 2) ''$O''
                 \<and> strncmp0 (view (buf s1) (p + n - 3) 3) ''#00'' then
              let s2 = s1\<lparr>buf := fromhex_at (buf s1) p (p + 2) (p + 2 + (n - 5))\<rparr>;
                  s3 = printf_s (cstr (buf s2) p (buf_end s2)) s2
              in (Continue, m1\<lparr>sess := write_pkt ''$OK#00'' s3\<rparr>)
            else if 2 < n \<and> strncmp0 (view (buf s1) p 2) ''$T'' then (Break, m1\<lparr>sess := s1\<rparr>)
            else if 5 < n
                 \<and> (strncmp0 (view (buf s1) p 2) ''$W'' \<or> strncmp0 (view (buf s1) p 2) ''$X'')
                 \<and> strncmp0 (view (buf s1) (p + n - 3) 3) ''#00'' then
              let s2 = s1\<lparr>app_quit := True,
                        buf := fromhex_at (buf s1) p (p + 2) (p + 2 + (n - 3))\<rparr>
              in (Break, m1\<lparr>ret := atoi (cstr (buf s2) p (buf_end s2)),
                             sess := write_pkt ''$OK#00'' s2\<rparr>)
            else (Break, m1\<lparr>sess := s1\<rparr>))"

fun running :: "nat \<Rightarrow> main_state \<Rightarrow> main_state option" where
  "running 0 m = None"
| "running (Suc fuel) m =
     (if user_quit (sess m) then Some m
      else
        (case running_iter m of
           (Break, m1) \<Rightarrow> Some m1
         | (Continue, m1) \<Rightarrow> running fuel m1))"

definition main_running :: "nat \<Rightarrow> session \<Rightarrow> (int \<times> session) option" where
  "main_running fuel s =
     map_option (\<lambda>m. (ret m, write_pkt ''$k#00'' (sess m)))
       (running fuel \<lparr>sess = s, ret = 1, spin_counter = 0\<rparr>)"

section \<open>Properties of the packet reader\<close>

definition buf_inv :: "session \<Rightarrow> bool" where
  "buf_inv s = (buf_head s \<le> buf_next s \<and> buf_next s \<le> buf_tail s \<and> buf_tail s \<le> buf_end s)"

lemma make_room_fields [simp]:
  "error_flag (make_room s) = error_flag s"
  "buf_head (make_room s) = 0"
  "buf_next (make_room s) = buf_tail s - buf_head s"
  "buf_tail (make_room s) = buf_tail s - buf_head s"
  "buf_end (make_room s) = buf_end s"
  "incoming (make_room s) = incoming s"
  "outgoing (make_room s) = outgoing s"
  "clock (make_room s) = clock s"
  "trace (make_room s) = trace s"
  "user_quit (make_room s) = user_quit s"
  "app_quit (make_room s) = app_quit s"
  by (simp_all add: make_room_def Let_def)


lemma read_char_result:
  assumes "read_char a s = (r, s')"
  shows "buf_end s' = buf_end s \<and> user_quit s' = user_quit s \<and> app_quit s' = app_quit s
     \<and> outgoing s' = outgoing s
     \<and> (buf_inv s \<longrightarrow> buf_inv s')
     \<and> (error_flag s \<longrightarrow> error_flag s')
     \<and> (r = RC_Empty \<longrightarrow> a)
     \<and> (buf_inv s \<longrightarrow> r = RC_Fail \<longrightarrow> error_flag s')
     \<and> (r \<noteq> RC_Fail \<longrightarrow> error_flag s' = error_flag s)"
proof (cases "error_flag s \<or> buf_next s \<noteq> buf_tail s")
  case True
  with assms show ?thesis
    by (auto simp: read_char_def take_char_def buf_inv_def split: if_splits)
next
  case False
  let ?avail = "buf_end s - buf_tail s"
  show ?thesis
  proof (cases "?avail < buf_end s div 4")
    case room: True
    show ?thesis
    proof (cases "?avail = 0 \<and> buf_head s = 0")
      case True
      with False room assms show ?thesis
        by (auto simp: read_char_def Let_def buf_inv_def)
    next
      case nofull: False
      with False room assms have fill: "refill a (make_room s) = (r, s')"
        by (auto simp: read_char_def Let_def)
      from refill_result [OF fill] show ?thesis
        by (cases r) (auto simp: buf_inv_def)
    qed
  next
    case noroom: False
    with False assms have fill: "refill a s = (r, s')"
      by (auto simp: read_char_def Let_def)
    from refill_result [OF fill] False show ?thesis
      by (cases r) (auto simp: buf_inv_def)
  qed
qed

lemma read_until_hash_result:
  "read_until_hash s = (ok, s') \<Longrightarrow>
     buf_end s' = buf_end s \<and> user_quit s' = user_quit s \<and> app_quit s' = app_quit s
     \<and> outgoing s' = outgoing s
     \<and> (buf_inv s \<longrightarrow> buf_inv s')
     \<and> (error_flag s \<longrightarrow> error_flag s')
     \<and> (buf_inv s \<longrightarrow> \<not> ok \<longrightarrow> error_flag s')
     \<and> (ok \<longrightarrow> error_flag s' = error_flag s)"
proof (induction s arbitrary: ok s' rule: read_until_hash.induct)
  case (1 s)
  obtain r s1 where rc: "read_char False s = (r, s1)"
    by (cases "read_char False s")
  note res = read_char_result [OF rc]
  show ?case
  proof (cases r)
    case RC_Fail
    with rc "1.prems" res show ?thesis
      by (auto simp: read_until_hash.simps [of s])
  next
    case RC_Empty
    with rc "1.prems" res show ?thesis
      by (auto simp: read_until_hash.simps [of s])
  next
    case (RC_Char ch)
    show ?thesis
    proof (cases "ch = CHR ''#''")
      case True
      with RC_Char rc "1.prems" res show ?thesis
        by (auto simp: read_until_hash.simps [of s])
    next
      case False
      with RC_Char rc "1.prems" have rec: "read_until_hash s1 = (ok, s')"
        by (simp add: read_until_hash.simps [of s])
      from "1.IH" [OF rc [symmetric] RC_Char False rec] res RC_Char show ?thesis
        by auto
    qed
  qed
qed

lemma finish_pkt_result:
  "finish_pkt ok s = (r, s') \<Longrightarrow>
     buf_end s' = buf_end s \<and> user_quit s' = user_quit s \<and> app_quit s' = app_quit s
     \<and> outgoing s' = outgoing s \<and> buf s' = buf s \<and> buf_next s' = buf_next s
     \<and> buf_tail s' = buf_tail s \<and> buf_head s' = buf_next s
     \<and> (buf_inv s \<longrightarrow> buf_inv s')
     \<and> (error_flag s \<longrightarrow> error_flag s')
     \<and> (r = None \<longrightarrow> error_flag s')
     \<and> (r \<noteq> None \<longrightarrow> error_flag s' = error_flag s)
     \<and> (r = None \<longleftrightarrow> \<not> ok)"
  by (cases ok) (auto simp: finish_pkt_def Let_def buf_inv_def)

lemma read_pkt_result:
  assumes "read_pkt a s = (r, s')"
  shows "buf_end s' = buf_end s \<and> user_quit s' = user_quit s \<and> app_quit s' = app_quit s
     \<and> outgoing s' = outgoing s
     \<and> (buf_inv s \<longrightarrow> buf_inv s')
     \<and> (error_flag s \<longrightarrow> error_flag s')
     \<and> (buf_inv s \<longrightarrow> r = None \<longrightarrow> error_flag s')
     \<and> (r \<noteq> None \<longrightarrow> error_flag s' = error_flag s \<and> buf_head s' = buf_next s')"
proof (cases "error_flag s")
  case True
  with assms show ?thesis
    by (simp add: read_pkt_def)
next
  case noerr: False
  obtain r1 s1 where rc1: "read_char a s = (r1, s1)"
    by (cases "read_char a s")
  note res1 = read_char_result [OF rc1]
  show ?thesis
  proof (cases r1)
    case RC_Fail
    with assms noerr rc1 res1 show ?thesis
      by (auto simp: read_pkt_def)
  next
    case RC_Empty
    with assms noerr rc1 have "finish_pkt True s1 = (r, s')"
      by (simp add: read_pkt_def)
    from finish_pkt_result [OF this] res1 RC_Empty show ?thesis
      by auto
  next
    case (RC_Char ch)
    show ?thesis
    proof (cases "ch = CHR ''$''")
      case False
      with assms noerr rc1 RC_Char have "finish_pkt (ch = CHR ''+'') s1 = (r, s')"
        by (auto simp: read_pkt_def split: if_splits)
      from finish_pkt_result [OF this] res1 RC_Char show ?thesis
        by auto
    next
      case True
      obtain ok s2 where ruh: "read_until_hash s1 = (ok, s2)"
        by (cases "read_until_hash s1")
      note res2 = read_until_hash_result [OF ruh]
      obtain r3 s3 where rc3: "read_char False s2 = (r3, s3)"
        by (cases "read_char False s2")
      note res3 = read_char_result [OF rc3]
      show ?thesis
      proof (cases "ok \<and> (\<exists>c1. r3 = RC_Char c1)")
        case False
        with assms noerr rc1 RC_Char True ruh rc3 res1 res2 res3 show ?thesis
          by (cases r3; cases ok) (auto simp: read_pkt_def)
      next
        case ok3: True
        then obtain c1 where c1: "r3 = RC_Char c1" and ok: "ok"
          by auto
        show ?thesis
        proof (cases "0 \<le> hex2int c1")
          case False
          with assms noerr rc1 RC_Char True ruh rc3 c1 ok have "finish_pkt False s3 = (r, s')"
            by (simp add: read_pkt_def)
          from finish_pkt_result [OF this] res1 res2 res3 RC_Char c1 ok show ?thesis
            by auto
        next
          case hex1: True
          obtain r4 s4 where rc4: "read_char False s3 = (r4, s4)"
            by (cases "read_char False s3")
          note res4 = read_char_result [OF rc4]
          show ?thesis
          proof (cases r4)
            case RC_Fail
            with assms noerr rc1 RC_Char True ruh rc3 c1 ok hex1 rc4 res1 res2 res3 res4
            show ?thesis
              by (auto simp: read_pkt_def)
          next
            case RC_Empty
            with res4 show ?thesis
              by simp
          next
            case c2: (RC_Char c2)
            with assms noerr rc1 RC_Char True ruh rc3 c1 ok hex1 rc4
            have "finish_pkt (0 \<le> hex2int c2) s4 = (r, s')"
              by (simp add: read_pkt_def)
            from finish_pkt_result [OF this] res1 res2 res3 res4 RC_Char c1 ok c2 show ?thesis
              by auto
          qed
        qed
      qed
    qed
  qed
qed


section \<open>Decoding inside the arena\<close>

lemma view_Suc: "view m p (Suc n) = m p # view m (Suc p) n"
  by (simp add: view_def upt_rec)

lemma view_0 [simp]: "view m p 0 = []"
  by (simp add: view_def)

lemma length_view [simp]: "length (view m p n) = n"
  by (simp add: view_def)

lemma view_cong: "(\<And>i. p \<le> i \<Longrightarrow> i < p + n \<Longrightarrow> m i = m' i) \<Longrightarrow> view m p n = view m' p n"
  by (simp add: view_def)

lemma view_append: "view m p (a + b) = view m p a @ view m (p + a) b"
  by (induction a arbitrary: p) (simp_all add: view_Suc)

lemma fromhex_at_below: "i < t \<Longrightarrow> fromhex_at m t f fend i = m i"
proof (induction m t f fend rule: fromhex_at.induct)
  case (1 m t f fend)
  show ?case
  proof (cases "f < fend")
    case False
    with "1.prems" show ?thesis
      by (simp add: fromhex_at.simps [of m t f fend])
  next
    case True
    let ?m' = "m(t := hexbyte (m f) (m (f + 1)))"
    have "fromhex_at m t f fend i = fromhex_at ?m' (t + 1) (f + 2) fend i"
      using True by (subst fromhex_at.simps) simp
    also have "\<dots> = ?m' i"
      using "1.IH" [OF True] "1.prems" by (simp add: fun_upd_def)
    also have "\<dots> = m i"
      using "1.prems" by simp
    finally show ?thesis .
  qed
qed

lemma fromhex_at_view:
  "t \<le> f \<Longrightarrow>
     view (fromhex_at m t f fend) t (Suc ((fend - f + 1) div 2))
       = fromhex (view m f (2 * ((fend - f + 1) div 2))) (fend - f) @ [CHR 0x00]"
proof (induction m t f fend rule: fromhex_at.induct)
  case (1 m t f fend)
  show ?case
  proof (cases "f < fend")
    case False
    then show ?thesis
      by (simp add: fromhex_at.simps [of m t f fend] view_Suc)
  next
    case True
    let ?v = "hexbyte (m f) (m (f + 1))"
    let ?m' = "m(t := ?v)"
    let ?k' = "(fend - (f + 2) + 1) div 2"
    from True have k: "(fend - f + 1) div 2 = Suc ?k'"
      by arith
    from "1.prems" have le: "t + 1 \<le> f + 2"
      by simp
    have step: "fromhex_at m t f fend = fromhex_at ?m' (t + 1) (f + 2) fend"
      using True by (simp add: fromhex_at.simps [of m t f fend])
    have src: "view ?m' (f + 2) (2 * ?k') = view m (f + 2) (2 * ?k')"
      using "1.prems" by (intro view_cong) simp
    have first: "fromhex_at ?m' (t + 1) (f + 2) fend t = ?v"
      using fromhex_at_below [of t "t + 1" ?m' "f + 2" fend] by (simp add: fun_upd_def)
    have "view (fromhex_at m t f fend) t (Suc (Suc ?k'))
        = ?v # view (fromhex_at ?m' (t + 1) (f + 2) fend) (t + 1) (Suc ?k')"
      using first by (simp add: step view_Suc [of _ t])
    also have "\<dots> = ?v # fromhex (view m (f + 2) (2 * ?k')) (fend - (f + 2)) @ [CHR 0x00]"
      using "1.IH" [OF True le] src by (simp add: fun_upd_def)
    also have "\<dots> = fromhex (view m f (2 * Suc ?k')) (fend - f) @ [CHR 0x00]"
      using True by (simp add: view_Suc)
    finally show ?thesis
      unfolding k .
  qed
qed

lemma cstr_view:
  "view m p (Suc (length ys)) = ys @ [CHR 0x00] \<Longrightarrow> p + length ys < limit \<Longrightarrow>
     cstr m p limit = takeWhile (\<lambda>c. c \<noteq> CHR 0x00) ys"
proof (induction ys arbitrary: p)
  case Nil
  then show ?case
    by (simp add: view_Suc cstr.simps [of m p limit])
next
  case (Cons y ys)
  from Cons.prems have "m p = y" "view m (Suc p) (Suc (length ys)) = ys @ [CHR 0x00]"
    by (simp_all add: view_Suc [of m p])
  with Cons.IH [of "Suc p"] Cons.prems(2) show ?case
    by (simp add: cstr.simps [of m p limit])
qed

lemma atoi_digits_takeWhile:
  "atoi_digits acc (takeWhile (\<lambda>c. c \<noteq> CHR 0x00) ys) = atoi_digits acc ys"
  by (induction ys arbitrary: acc) (simp_all add: isdigit_def ord_def)

lemma atoi_signed_takeWhile:
  "atoi_signed (takeWhile (\<lambda>c. c \<noteq> CHR 0x00) ys) = atoi_signed ys"
proof (induction ys)
  case Nil
  then show ?case by simp
next
  case (Cons y ys)
  show ?case
  proof (cases "y = CHR 0x00")
    case True
    then show ?thesis
      by (simp add: isdigit_def isspace_def ord_def)
  next
    case False
    with Cons.IH atoi_digits_takeWhile [of 0 ys] atoi_digits_takeWhile [of "ord y - ord CHR ''0''" ys]
    show ?thesis
      by simp
  qed
qed

section \<open>The error flag\<close>

text \<open>
  C4 (the error flag is sticky). Once the flag is set, \<^verbatim>\<open>write_pkt\<close>, \<^verbatim>\<open>read_char\<close>,
  \<^verbatim>\<open>read_pkt\<close> and \<^verbatim>\<open>read_pkt_assert\<close> return at once with the failure result and leave
  the whole session as it was: the flag stays set, nothing is sent or received (the
  scripts and the trace are unchanged) and the arena and its cursors are untouched.
\<close>

theorem error_flag_sticky:
  assumes "error_flag s"
  shows "write_pkt str s = s \<and> read_char a s = (RC_Fail, s) \<and> read_pkt a s = (None, s)
     \<and> read_pkt_assert e s = (False, s)
     \<and> error_flag (write_pkt str s) \<and> error_flag (snd (read_char a s))
     \<and> error_flag (snd (read_pkt a s)) \<and> error_flag (snd (read_pkt_assert e s))"
  using assms by (simp add: write_pkt_def read_char_def read_pkt_def read_pkt_assert_def)

theorem error_flag_sticky_witness:
  "error_flag ((in_new [Recv_data ''+''] [] 16384)\<lparr>error_flag := True\<rparr>)
   \<and> trace (write_pkt ''$k#00'' ((in_new [Recv_data ''+''] [] 16384)\<lparr>error_flag := True\<rparr>)) = []
   \<and> fst (read_char False ((in_new [Recv_data ''+''] [] 16384)\<lparr>error_flag := True\<rparr>)) = RC_Fail
   \<and> fst (read_pkt False ((in_new [Recv_data ''+''] [] 16384)\<lparr>error_flag := True\<rparr>)) = None
   \<and> incoming (snd (read_pkt False ((in_new [Recv_data ''+''] [] 16384)\<lparr>error_flag := True\<rparr>)))
       = [Recv_data ''+'']
   \<and> buf_next (snd (read_pkt False ((in_new [Recv_data ''+''] [] 16384)\<lparr>error_flag := True\<rparr>))) = 0
   \<and> fst (read_pkt_assert (Some ''+'')
         ((in_new [Recv_data ''+''] [] 16384)\<lparr>error_flag := True\<rparr>)) = False"
  using error_flag_sticky [of "(in_new [Recv_data ''+''] [] 16384)\<lparr>error_flag := True\<rparr>"]
  by (simp add: in_new_def)

text \<open>
  No operation clears the flag either when it fails on the way: the flag of the result
  is set whenever the flag of the argument is.
\<close>

lemma error_flag_mono:
  "error_flag s \<longrightarrow>
     error_flag (write_pkt str s) \<and> error_flag (snd (read_char a s))
     \<and> error_flag (snd (read_pkt a s)) \<and> error_flag (snd (read_pkt_assert e s))"
  by (simp add: write_pkt_def read_char_def read_pkt_def read_pkt_assert_def)

section \<open>Acknowledgement bytes\<close>

lemma read_char_first:
  assumes "\<not> error_flag s" and "buf_head s = buf_next s" and "read_char a s = (RC_Char c, s')"
  shows "buf_next s' = buf_head s' + 1 \<and> buf s' (buf_head s') = c \<and> \<not> error_flag s'"
proof (cases "buf_next s = buf_tail s")
  case False
  with assms show ?thesis
    by (auto simp: read_char_def take_char_def split: if_splits)
next
  case True
  let ?s1 = "if buf_end s - buf_tail s < buf_end s div 4 then make_room s else s"
  from assms True have fill: "refill a ?s1 = (RC_Char c, s')"
    by (auto simp: read_char_def Let_def split: if_splits)
  have "buf_head ?s1 = buf_next ?s1" "\<not> error_flag ?s1"
    using assms True by auto
  with refill_result [OF fill] show ?thesis
    by auto
qed

lemma read_first_char:
  "\<exists>s1. read_char False (in_new [Recv_data (c # cs)] [] 16384) = (RC_Char c, s1)
     \<and> buf_head s1 = 0 \<and> buf_next s1 = 1"
  by (simp add: read_char_def in_new_def refill_def recv_loop.simps receive_def take_char_def
      store_at_def)

text \<open>
  C2 (acknowledgement bytes), as the code has it. In a session without error and with
  no packet under way (\<^verbatim>\<open>buf_head == buf_next\<close>, as after every packet), let the next byte
  that \<^verbatim>\<open>read_char\<close> delivers, buffered or from the transport, be \<open>c\<close>. If \<open>c\<close> is \<^verbatim>\<open>+\<close>,
  \<^verbatim>\<open>read_pkt\<close> without \<^verbatim>\<open>allow_empty\<close> succeeds with the one-byte packet \<^verbatim>\<open>+\<close>, consumes it
  and leaves the error flag unset. If \<open>c\<close> is \<^verbatim>\<open>-\<close>, \<^verbatim>\<open>read_pkt\<close> has no branch for it: the
  byte is consumed, the call fails and the error flag is set.
\<close>

theorem read_pkt_ack:
  assumes "\<not> error_flag s" and "buf_head s = buf_next s"
    and "read_char False s = (RC_Char c, s1)"
  shows "(c = CHR ''+'' \<longrightarrow>
            read_pkt False s = (Some (buf_head s1, 1), s1\<lparr>buf_head := buf_next s1\<rparr>)
            \<and> view (buf s1) (buf_head s1) 1 = ''+''
            \<and> buf_next s1 = buf_head s1 + 1 \<and> \<not> error_flag s1)
       \<and> (c = CHR ''-'' \<longrightarrow>
            read_pkt False s = (None, s1\<lparr>error_flag := True, buf_head := buf_next s1\<rparr>))"
  using assms read_char_first [OF assms]
  by (auto simp: read_pkt_def finish_pkt_def view_def Let_def)

theorem read_pkt_ack_witness:
  "\<not> error_flag (in_new [Recv_data ''+$OK#9a''] [] 16384)
   \<and> buf_head (in_new [Recv_data ''+$OK#9a''] [] 16384)
       = buf_next (in_new [Recv_data ''+$OK#9a''] [] 16384)
   \<and> fst (read_char False (in_new [Recv_data ''+$OK#9a''] [] 16384)) = RC_Char CHR ''+''
   \<and> fst (read_pkt False (in_new [Recv_data ''+$OK#9a''] [] 16384)) = Some (0, 1)
   \<and> buf_head (snd (read_pkt False (in_new [Recv_data ''+$OK#9a''] [] 16384))) = 1
   \<and> \<not> error_flag (snd (read_pkt False (in_new [Recv_data ''+$OK#9a''] [] 16384)))
   \<and> fst (read_char False (in_new [Recv_data ''-$OK#9a''] [] 16384)) = RC_Char CHR ''-''
   \<and> fst (read_pkt False (in_new [Recv_data ''-$OK#9a''] [] 16384)) = None
   \<and> error_flag (snd (read_pkt False (in_new [Recv_data ''-$OK#9a''] [] 16384)))
   \<and> buf_head (snd (read_pkt False (in_new [Recv_data ''-$OK#9a''] [] 16384))) = 1"
proof -
  let ?p = "in_new [Recv_data ''+$OK#9a''] [] 16384"
  let ?m = "in_new [Recv_data ''-$OK#9a''] [] 16384"
  obtain p1 where p1: "read_char False ?p = (RC_Char CHR ''+'', p1)"
    "buf_head p1 = 0" "buf_next p1 = 1"
    using read_first_char [of "CHR ''+''" "''$OK#9a''"] by blast
  obtain m1 where m1: "read_char False ?m = (RC_Char CHR ''-'', m1)"
    "buf_head m1 = 0" "buf_next m1 = 1"
    using read_first_char [of "CHR ''-''" "''$OK#9a''"] by blast
  have pre: "\<not> error_flag ?p" "buf_head ?p = buf_next ?p" "\<not> error_flag ?m"
    "buf_head ?m = buf_next ?m"
    by (simp_all add: in_new_def)
  from read_pkt_ack [OF pre(1,2) p1(1)] read_pkt_ack [OF pre(3,4) m1(1)] p1 m1 pre
  show ?thesis
    by simp
qed

text \<open>
  As the claim states it, with \<^verbatim>\<open>-\<close> accepted like \<^verbatim>\<open>+\<close>, it fails: on a fresh session
  whose transport delivers the single byte \<^verbatim>\<open>-\<close>, \<^verbatim>\<open>read_pkt\<close> fails and sets the flag.
\<close>

theorem read_pkt_minus_counterexample:
  "fst (read_char False (in_new [Recv_data ''-''] [] 16384)) = RC_Char CHR ''-''
   \<and> fst (read_pkt False (in_new [Recv_data ''-''] [] 16384)) = None
   \<and> error_flag (snd (read_pkt False (in_new [Recv_data ''-''] [] 16384)))"
  by (simp add: read_pkt_def read_char_def in_new_def refill_def recv_loop.simps receive_def
      take_char_def store_at_def finish_pkt_def)

section \<open>Asserted replies\<close>

lemma strncmp0_prefix:
  "CHR 0x00 \<notin> set pkt \<Longrightarrow> strncmp0 pkt e = (take (length pkt) e = pkt)"
  by (induction pkt e rule: strncmp0.induct) auto

lemma read_pkt_assert_unfold:
  assumes "read_pkt False s = (Some (p, n), s1)"
  shows "read_pkt_assert (Some expected) s =
           (if strncmp0 (view (buf s1) p n) expected then (True, s1)
            else (False, s1\<lparr>error_flag := True\<rparr>))"
  using assms by (simp add: read_pkt_assert_def)

lemma read_ok00:
  "\<exists>s1. read_pkt False (in_new [Recv_data ''$OK#00''] [] 16384) = (Some (0, 6), s1)
     \<and> view (buf s1) 0 6 = ''$OK#00'' \<and> \<not> error_flag s1"
  by (simp add: read_pkt_def read_char_def in_new_def refill_def recv_loop.simps receive_def
      take_char_def store_at_def finish_pkt_def read_until_hash.simps hex2int_def ord_def view_def
      upt_rec [of _ "numeral _"] upt_rec [of _ "Suc _"])

lemma read_plus:
  "\<exists>s1. read_pkt False (in_new [Recv_data ''+''] [] 16384) = (Some (0, 1), s1)
     \<and> view (buf s1) 0 1 = ''+'' \<and> \<not> error_flag s1"
  by (simp add: read_pkt_def read_char_def in_new_def refill_def recv_loop.simps receive_def
      take_char_def store_at_def finish_pkt_def view_def)

text \<open>
  C3 (asserted replies), as the code has it. \<^verbatim>\<open>read_pkt_assert\<close> calls
  \<^verbatim>\<open>strncmp(s, expected, n)\<close> with \<open>n\<close> the length of the packet read: for every packet
  read and every string \<^verbatim>\<open>expected\<close> it succeeds exactly when that comparison finds no
  difference, and otherwise fails and sets the error flag. The comparison is bounded by
  the length of the packet, not of \<^verbatim>\<open>expected\<close>: for a packet without NUL bytes it holds
  exactly when the packet is the beginning of \<^verbatim>\<open>expected\<close>, so what \<^verbatim>\<open>expected\<close> has
  beyond the length of the packet is not checked, and a packet longer than \<^verbatim>\<open>expected\<close>
  is a mismatch.
\<close>

theorem read_pkt_assert_compare:
  assumes "read_pkt False s = (Some (p, n), s1)"
  shows "read_pkt_assert (Some expected) s =
           (if strncmp0 (view (buf s1) p n) expected then (True, s1)
            else (False, s1\<lparr>error_flag := True\<rparr>))
       \<and> (CHR 0x00 \<notin> set (view (buf s1) p n) \<longrightarrow>
            strncmp0 (view (buf s1) p n) expected = (take n expected = view (buf s1) p n))"
  using read_pkt_assert_unfold [OF assms] strncmp0_prefix [of "view (buf s1) p n" expected]
  by simp

theorem read_pkt_assert_compare_witness:
  "fst (read_pkt False (in_new [Recv_data ''$OK#00''] [] 16384)) = Some (0, 6)
   \<and> fst (read_pkt_assert (Some ''$OK#00'') (in_new [Recv_data ''$OK#00''] [] 16384))
   \<and> fst (read_pkt_assert (Some ''$OK#00 and more'') (in_new [Recv_data ''$OK#00''] [] 16384))
   \<and> \<not> fst (read_pkt_assert (Some ''$OK#9a'') (in_new [Recv_data ''$OK#00''] [] 16384))
   \<and> error_flag (snd (read_pkt_assert (Some ''$OK#9a'') (in_new [Recv_data ''$OK#00''] [] 16384)))"
proof -
  let ?s = "in_new [Recv_data ''$OK#00''] [] 16384"
  obtain s1 where s1: "read_pkt False ?s = (Some (0, 6), s1)" "view (buf s1) 0 6 = ''$OK#00''"
    using read_ok00 by blast
  from read_pkt_assert_compare [OF s1(1), of "''$OK#00''"]
    read_pkt_assert_compare [OF s1(1), of "''$OK#00 and more''"]
    read_pkt_assert_compare [OF s1(1), of "''$OK#9a''"] s1
  show ?thesis
    by simp
qed

text \<open>
  As the claim states it (what the packet has beyond the length of \<^verbatim>\<open>expected\<close> is not
  checked), it fails in both directions. The packet \<^verbatim>\<open>$OK#00\<close> agrees with the expected
  string \<^verbatim>\<open>$OK#0\<close> on all five characters of that string, and the call fails and sets the
  flag. The packet \<^verbatim>\<open>+\<close> is not the expected string \<^verbatim>\<open>+-\<close>, and the call succeeds.
\<close>

theorem read_pkt_assert_counterexample:
  "fst (read_pkt False (in_new [Recv_data ''$OK#00''] [] 16384)) = Some (0, 6)
   \<and> take (length ''$OK#0'') ''$OK#00'' = ''$OK#0''
   \<and> \<not> fst (read_pkt_assert (Some ''$OK#0'') (in_new [Recv_data ''$OK#00''] [] 16384))
   \<and> error_flag (snd (read_pkt_assert (Some ''$OK#0'') (in_new [Recv_data ''$OK#00''] [] 16384)))
   \<and> fst (read_pkt False (in_new [Recv_data ''+''] [] 16384)) = Some (0, 1)
   \<and> fst (read_pkt_assert (Some ''+-'') (in_new [Recv_data ''+''] [] 16384))"
proof -
  obtain s1 where s1: "read_pkt False (in_new [Recv_data ''$OK#00''] [] 16384) = (Some (0, 6), s1)"
    "view (buf s1) 0 6 = ''$OK#00''"
    using read_ok00 by blast
  obtain s2 where s2: "read_pkt False (in_new [Recv_data ''+''] [] 16384) = (Some (0, 1), s2)"
    "view (buf s2) 0 1 = ''+''"
    using read_plus by blast
  from read_pkt_assert_unfold [OF s1(1), of "''$OK#0''"]
    read_pkt_assert_unfold [OF s2(1), of "''+-''"] s1 s2
  show ?thesis
    by simp
qed

section \<open>The receive buffer\<close>











section \<open>Exit packets and idle polls\<close>

lemma atoi_digits_append:
  "\<not> isdigit c \<Longrightarrow> atoi_digits acc (ys @ [c]) = atoi_digits acc ys"
  by (induction ys arbitrary: acc) simp_all

lemma atoi_signed_append:
  assumes "\<not> isdigit c" and "\<not> isspace c" and "c \<noteq> CHR ''-''" and "c \<noteq> CHR ''+''"
  shows "atoi_signed (ys @ [c]) = atoi_signed ys"
  using assms by (induction ys) (simp_all add: atoi_digits_append)

lemma fromhex_append:
  "even (length hx) \<Longrightarrow> fromhex (hx @ rest) (length hx + k) = fromhex hx (length hx) @ fromhex rest k"
  by (induction hx rule: induct_list012) simp_all

lemma length_fromhex:
  "even (length hx) \<Longrightarrow> length (fromhex hx (length hx)) = length hx div 2"
  by (induction hx rule: induct_list012) simp_all

lemma hexbyte_hash_zero: "hexbyte CHR ''#'' CHR ''0'' = CHR 0xF0"
  by code_simp

lemma view_split:
  assumes "view m p n = xs @ ys"
  shows "view m p (length xs) = xs" and "view m (p + length xs) (length ys) = ys"
proof -
  have "length (view m p n) = length (xs @ ys)"
    using assms by simp
  then have n: "n = length xs + length ys"
    by simp
  from assms have "view m p (length xs) @ view m (p + length xs) (length ys) = xs @ ys"
    by (simp add: n view_append)
  then show "view m p (length xs) = xs" and "view m (p + length xs) (length ys) = ys"
    by simp_all
qed

lemma running_iter_exit:
  assumes rp: "read_pkt True (sess m) = (Some (p, n), s1)"
    and pkt: "view (buf s1) p n = CHR ''$'' # c # hx @ ''#00''"
    and c: "c = CHR ''W'' \<or> c = CHR ''X''"
    and ev: "even (length hx)" and ne: "hx \<noteq> []"
    and lim: "p + n \<le> buf_end s1"
  shows "running_iter m =
           (Break, m\<lparr>spin_counter := 0, ret := atoi (fromhex hx (length hx)),
                     sess := write_pkt ''$OK#00''
                       (s1\<lparr>app_quit := True,
                           buf := fromhex_at (buf s1) p (p + 2) (p + 2 + (n - 3))\<rparr>)\<rparr>)"
proof -
  let ?m = "buf s1"
  have "length (view ?m p n) = length (CHR ''$'' # c # hx @ ''#00'')"
    using pkt by simp
  then have n: "n = length hx + 5"
    by simp
  have pkt2: "view ?m p n = [CHR ''$'', c] @ (hx @ ''#0'') @ ''0''"
    using pkt by simp
  have head: "view ?m p 2 = [CHR ''$'', c]"
    using view_split(1) [OF pkt2] by (simp add: numeral_2_eq_2)
  have mid: "view ?m (p + 2) (length hx + 2) = hx @ ''#0''"
    using view_split(1) [OF view_split(2) [OF pkt2]] by simp
  have pkt3: "view ?m p n = (CHR ''$'' # c # hx) @ ''#00''"
    using pkt by simp
  have tail: "view ?m (p + n - 3) 3 = ''#00''"
    using view_split(2) [OF pkt3] by (simp add: n numeral_3_eq_3)
  let ?m2 = "fromhex_at ?m p (p + 2) (p + 2 + (n - 3))"
  let ?ys = "fromhex hx (length hx) @ [CHR 0xF0]"
  have k: "(p + 2 + (n - 3) - (p + 2) + 1) div 2 = length hx div 2 + 1"
    using ev by (auto simp: n elim!: evenE)
  have two_k: "2 * (length hx div 2 + 1) = length hx + 2"
    using ev by (auto elim!: evenE)
  have "view ?m2 p (Suc (length hx div 2 + 1))
      = fromhex (view ?m (p + 2) (2 * (length hx div 2 + 1))) (p + 2 + (n - 3) - (p + 2)) @ [CHR 0x00]"
    using fromhex_at_view [of p "p + 2" ?m "p + 2 + (n - 3)"] unfolding k by simp
  also have "\<dots> = fromhex (hx @ ''#0'') (length hx + 2) @ [CHR 0x00]"
    unfolding two_k mid by (simp add: n)
  also have "\<dots> = ?ys @ [CHR 0x00]"
    using fromhex_append [OF ev, of "''#0''" 2] by (simp add: hexbyte_hash_zero)
  finally have dec: "view ?m2 p (Suc (length ?ys)) = ?ys @ [CHR 0x00]"
    using ev by (simp add: length_fromhex)
  have "p + length ?ys < buf_end s1"
    using lim ev by (simp add: length_fromhex n)
  from cstr_view [OF dec this]
  have "atoi (cstr ?m2 p (buf_end s1)) = atoi (fromhex hx (length hx))"
    by (simp add: atoi_def atoi_signed_takeWhile atoi_signed_append isdigit_def isspace_def ord_def)
  moreover have "\<not> strncmp0 (view ?m p 2) ''$O''" "\<not> strncmp0 (view ?m p 2) ''$T''"
    "strncmp0 (view ?m p 2) ''$W'' \<or> strncmp0 (view ?m p 2) ''$X''"
    "strncmp0 (view ?m (p + n - 3) 3) ''#00''"
    using c by (auto simp: head tail)
  ultimately show ?thesis
    using rp ne by (simp add: running_iter_def n Let_def)
qed

text \<open>
  What the loop does with an exit packet \<^verbatim>\<open>$W<payload>#00\<close> or \<^verbatim>\<open>$X<payload>#00\<close> whose
  payload has an even, positive number of characters: it leaves the loop, has set
  \<^verbatim>\<open>app_quit\<close>, has replied \<^verbatim>\<open>$OK#00\<close>, and the result code of the program is \<^verbatim>\<open>atoi\<close> of
  the hex-decoded payload. (The call decodes \<open>n-3\<close> characters, the payload and \<^verbatim>\<open>#0\<close>; the
  extra byte \<open>0xF0\<close> is no digit and does not change the number.)
\<close>

lemma running_exit_status:
  assumes rp: "read_pkt True s = (Some (p, n), s1)"
    and pkt: "view (buf s1) p n = CHR ''$'' # c # hx @ ''#00''"
    and c: "c = CHR ''W'' \<or> c = CHR ''X''"
    and ev: "even (length hx)" and ne: "hx \<noteq> []"
    and lim: "p + n \<le> buf_end s1"
  shows "(\<forall>m. sess m = s \<longrightarrow>
            fst (running_iter m) = Break
            \<and> ret (snd (running_iter m)) = atoi (fromhex hx (length hx))
            \<and> app_quit (sess (snd (running_iter m)))
            \<and> trace (sess (snd (running_iter m))) = trace s1 @ [Io_send ''$OK#00'']
            \<and> clock (sess (snd (running_iter m))) = clock s1)
       \<and> (\<not> user_quit s \<longrightarrow>
            map_option fst (main_running (Suc fuel) s) = Some (atoi (fromhex hx (length hx))))"
proof -
  from rp have "\<not> error_flag s"
    by (auto simp: read_pkt_def)
  with read_pkt_result [OF rp] have noerr: "\<not> error_flag s1"
    by simp
  have iter: "running_iter m =
           (Break, m\<lparr>spin_counter := 0, ret := atoi (fromhex hx (length hx)),
                     sess := write_pkt ''$OK#00''
                       (s1\<lparr>app_quit := True,
                           buf := fromhex_at (buf s1) p (p + 2) (p + 2 + (n - 3))\<rparr>)\<rparr>)"
    if "sess m = s" for m
    using running_iter_exit [of m p n s1 c hx] rp pkt c ev ne lim that by simp
  have sent: "trace (write_pkt ''$OK#00'' (s1\<lparr>app_quit := True, buf := b\<rparr>)) = trace s1 @ [Io_send ''$OK#00'']"
    "app_quit (write_pkt ''$OK#00'' (s1\<lparr>app_quit := True, buf := b\<rparr>))"
    "clock (write_pkt ''$OK#00'' (s1\<lparr>app_quit := True, buf := b\<rparr>)) = clock s1" for b
    using noerr by (auto simp: write_pkt_def send_def Let_def split: list.splits send_event.splits)
  show ?thesis
    using iter [of "\<lparr>sess = s, ret = 1, spin_counter = 0\<rparr>"] iter sent
    by (simp add: main_running_def)
qed

lemma store_at_Nil [simp]: "store_at m p [] = m"
  by (rule ext) (auto simp: store_at_def)


text \<open>
  The loop at its head with nothing buffered and no packet under way, no error and no
  request to quit: the next round starts with a physical read.
\<close>

definition idle_ready :: "session \<Rightarrow> bool" where
  "idle_ready s =
     (\<not> error_flag s \<and> \<not> user_quit s \<and> buf_head s = buf_tail s \<and> buf_next s = buf_tail s
      \<and> buf_tail s \<le> buf_end s \<and> 0 < buf_end s)"

lemma view_7: "view m p 7 = [m p, m (p + 1), m (p + 2), m (p + 3), m (p + 4), m (p + 5), m (p + 6)]"
  by (simp add: eval_nat_numeral view_Suc)

lemma read_exit_packet_idle:
  assumes "idle_ready s" and "28 \<le> buf_end s"
    and "incoming s = Recv_data [CHR ''$'', c, d1, d2, CHR ''#'', CHR ''0'', CHR ''0''] # rest"
    and "c \<noteq> CHR ''#''" and "d1 \<noteq> CHR ''#''" and "d2 \<noteq> CHR ''#''"
  shows "\<exists>p s1. read_pkt True s = (Some (p, 7), s1)
     \<and> view (buf s1) p 7 = [CHR ''$'', c, d1, d2, CHR ''#'', CHR ''0'', CHR ''0'']
     \<and> p + 7 \<le> buf_end s1 \<and> trace s1 = trace s @ [Io_recv 7] \<and> incoming s1 = rest
     \<and> clock s1 = clock s"
proof (cases "buf_end s - buf_tail s < buf_end s div 4")
  case True
  with assms show ?thesis
    by (simp add: idle_ready_def read_pkt_def read_char_def refill_def recv_loop.simps receive_def
      take_char_def store_at_def finish_pkt_def read_until_hash.simps hex2int_def ord_def view_7
      make_room_def Let_def)
next
  case False
  with assms have "7 \<le> buf_end s - buf_tail s"
    by (simp add: idle_ready_def)
  with False assms show ?thesis
    by (auto simp: idle_ready_def read_pkt_def read_char_def refill_def recv_loop.simps receive_def
      take_char_def store_at_def finish_pkt_def read_until_hash.simps hex2int_def ord_def view_7
      Let_def)
qed




lemma atoi_examples:
  "hexbyte CHR ''0'' CHR ''0'' = CHR 0x00" "hexbyte CHR ''0'' CHR ''1'' = CHR 0x01"
  "hexbyte CHR ''3'' CHR ''1'' = CHR ''1''" "hexbyte CHR ''3'' CHR ''0'' = CHR ''0''"
  "atoi [CHR 0x00] = 0" "atoi [CHR 0x01] = 0" "atoi ''1'' = 1" "atoi ''0'' = 0"
  by code_simp+

text \<open>Numbers that do not fit: \<^verbatim>\<open>strtol\<close> saturates, the conversion to \<^verbatim>\<open>int\<close> truncates.\<close>

lemma atoi_saturates:
  "atoi ''99999999999999999999'' = - 1" "atoi ''-99999999999999999999'' = 0"
  "atoi ''2147483648'' = - 2147483648" "atoi '' -12x'' = - 12"
  by code_simp+

lemma running_exit_after:
  assumes "idle_ready s" and "28 \<le> buf_end s"
    and "incoming s = Recv_data [CHR ''$'', c, d1, d2, CHR ''#'', CHR ''0'', CHR ''0''] # rest"
    and "c = CHR ''W'' \<or> c = CHR ''X''" and "d1 \<noteq> CHR ''#''" and "d2 \<noteq> CHR ''#''"
    and "sess m = s"
  shows "map_option (trace \<circ> sess) (running 1 m) = Some (trace s @ [Io_recv 7, Io_send ''$OK#00''])
     \<and> map_option (clock \<circ> sess) (running 1 m) = Some (clock s)
     \<and> map_option ret (running 1 m) = Some (atoi (fromhex [d1, d2] 2))
     \<and> map_option fst (main_running 1 s) = Some (atoi (fromhex [d1, d2] 2))"
proof -
  from assms(4) have c: "c \<noteq> CHR ''#''"
    by auto
  from read_exit_packet_idle [OF assms(1,2,3) c assms(5,6)]
  obtain p s1 where s1: "read_pkt True s = (Some (p, 7), s1)"
    "view (buf s1) p 7 = CHR ''$'' # c # [d1, d2] @ ''#00''"
    "p + 7 \<le> buf_end s1" "trace s1 = trace s @ [Io_recv 7]" "clock s1 = clock s"
    by auto
  from assms(1) have nq: "\<not> user_quit s"
    by (simp add: idle_ready_def)
  have ev: "even (length [d1, d2])" "[d1, d2] \<noteq> []"
    by simp_all
  note st = running_exit_status [OF s1(1,2) assms(4) ev s1(3), of 0]
  from st [THEN conjunct1, rule_format, OF assms(7)] st [THEN conjunct2] nq assms(7) s1(4,5)
  show ?thesis
    by (cases "running_iter m") auto
qed

text \<open>
  C1 (exit-code decoding). The stub reports the end of the process as \<^verbatim>\<open>W\<close> (or \<^verbatim>\<open>X\<close>)
  followed by the status as two hex digits, so \<^verbatim>\<open>$W01#00\<close> is the exit status 1, as
  the claim says. The loop does not read the two digits as a number: it decodes them to
  one byte with \<^verbatim>\<open>fromhex\<close> and hands that byte, as a string, to \<^verbatim>\<open>atoi\<close>. The payload \<^verbatim>\<open>01\<close>
  becomes the byte \<open>0x01\<close>, which is no decimal digit, and the program ends with the
  result code 0: the status 1 of the application is lost. A result code 1 comes only from
  \<^verbatim>\<open>$W31#00\<close>, \<^verbatim>\<open>31\<close> being the hex code of the character \<^verbatim>\<open>1\<close>; \<^verbatim>\<open>$W00#00\<close> gives 0, as
  the claim says.
\<close>

theorem exit_packet_w01_status:
  "fromhex ''01'' 2 = [CHR 0x01] \<and> atoi [CHR 0x01] = 0
   \<and> map_option fst (main_running 1 (in_new [Recv_data ''$W01#00''] [] 16384)) = Some 0
   \<and> map_option fst (main_running 1 (in_new [Recv_data ''$X01#00''] [] 16384)) = Some 0
   \<and> map_option fst (main_running 1 (in_new [Recv_data ''$W00#00''] [] 16384)) = Some 0
   \<and> map_option fst (main_running 1 (in_new [Recv_data ''$W31#00''] [] 16384)) = Some 1"
proof -
  have run: "map_option fst (main_running 1 (in_new [Recv_data (CHR ''$'' # c # [d1, d2] @ ''#00'')] [] 16384))
      = Some (atoi (fromhex [d1, d2] 2))"
    if "c = CHR ''W'' \<or> c = CHR ''X''" "d1 \<noteq> CHR ''#''" "d2 \<noteq> CHR ''#''" for c d1 d2
  proof -
    let ?s = "in_new [Recv_data (CHR ''$'' # c # [d1, d2] @ ''#00'')] [] 16384"
    have idle: "idle_ready ?s" "28 \<le> buf_end ?s"
      "incoming ?s = Recv_data [CHR ''$'', c, d1, d2, CHR ''#'', CHR ''0'', CHR ''0''] # []"
      by (simp_all add: idle_ready_def in_new_def)
    from running_exit_after [OF idle that, of "\<lparr>sess = ?s, ret = 1, spin_counter = 0\<rparr>"]
    show ?thesis
      by simp
  qed
  from run [of "CHR ''W''" "CHR ''0''" "CHR ''1''"] run [of "CHR ''X''" "CHR ''0''" "CHR ''1''"]
    run [of "CHR ''W''" "CHR ''0''" "CHR ''0''"] run [of "CHR ''W''" "CHR ''3''" "CHR ''1''"]
  show ?thesis
    by (simp add: atoi_examples)
qed





section \<open>The web inspector relay\<close>

text \<open>
  The second program, \<^verbatim>\<open>idevicewebinspectorproxy.c\<close>. The client socket is a script of what
  the calls of \<^verbatim>\<open>socket_receive_timeout\<close> find: \<open>Sock_data bs\<close>, the bytes \<open>bs\<close> are there to be
  read, and a call with room for \<open>n\<close> bytes returns the first \<open>n\<close> of them (all of them, if
  they are fewer) and leaves the others for the next call; \<open>Sock_ret_neg n\<close>, the call
  returns \<open>-n\<close>: 0 when nothing came before the timeout, \<open>-11\<close> when the socket asks to try
  again, any other negative number for an error. When the script is used up nothing
  arrives any more.
\<close>

datatype sock_event = Sock_data string | Sock_ret_neg nat

fun sock_size :: "sock_event list \<Rightarrow> nat" where
  "sock_size [] = 0"
| "sock_size (Sock_data bs # es) = Suc (length bs) + sock_size es"
| "sock_size (Sock_ret_neg n # es) = Suc (sock_size es)"

text \<open>
  \<^verbatim>\<open>receive_message_timeout(fd, data, message_length, flags, timeout)\<close>: the arguments of the
  model are \<^verbatim>\<open>message_length\<close>, the bytes stored in \<^verbatim>\<open>data\<close> so far (\<^verbatim>\<open>current_length\<close> is their
  number), the number of calls of \<^verbatim>\<open>socket_receive_timeout\<close> made so far, and the script. The
  result is the value returned, the bytes in \<^verbatim>\<open>data\<close>, the number of calls and the rest of
  the script. A return of 0 or \<open>-11\<close> is followed by \<^verbatim>\<open>continue\<close>, which in a \<^verbatim>\<open>do ... while\<close>
  goes to the test \<^verbatim>\<open>current_length < message_length\<close>. With the script used up the loop
  never ends: the result is \<^const>\<open>None\<close>.
\<close>

function receive_message_timeout ::
  "nat \<Rightarrow> string \<Rightarrow> nat \<Rightarrow> sock_event list \<Rightarrow> (int \<times> string \<times> nat \<times> sock_event list) option" where
  "receive_message_timeout message_length data calls [] = None"
| "receive_message_timeout message_length data calls (Sock_ret_neg n # es) =
     (if n = 0 \<or> n = 11 then
        (if length data < message_length
         then receive_message_timeout message_length data (Suc calls) es
         else Some (int message_length, data, Suc calls, es))
      else Some (- int n, data, Suc calls, es))"
| "receive_message_timeout message_length data calls (Sock_data bs # es) =
     (let room = message_length - length data;
          data1 = data @ take room bs;
          es1 = (if length bs \<le> room then es else Sock_data (drop room bs) # es)
      in if length data1 < message_length
         then receive_message_timeout message_length data1 (Suc calls) es1
         else Some (int message_length, data1, Suc calls, es1))"
  by pat_completeness auto
termination
  by (relation "measure (\<lambda>(message_length, data, calls, es). sock_size es)") auto

declare receive_message_timeout.simps [simp del]

text \<open>
  \<^verbatim>\<open>be32toh(network_mlen)\<close>, on the four bytes received into \<^verbatim>\<open>network_mlen\<close>, and
  \<^verbatim>\<open>sizeof(buffer)\<close> for \<^verbatim>\<open>char buffer[131072]\<close>.
\<close>

definition be32toh :: "string \<Rightarrow> nat" where
  "be32toh bs = foldl (\<lambda>acc c. acc * 256 + of_char c) 0 bs"

definition buffer_size :: nat where
  "buffer_size = 131072"

text \<open>
  \<^verbatim>\<open>socket_info_t\<close>, without the port and the device handle; \<^verbatim>\<open>inspector\<close> is \<^const>\<open>None\<close> for
  \<^verbatim>\<open>NULL\<close>. The state of a pump: the record, \<^verbatim>\<open>quit_flag\<close>, the script of the client socket
  with the number of receive calls made, the outcomes of the calls to the device side
  (\<^verbatim>\<open>webinspector_client_start_service\<close>, \<^verbatim>\<open>thread_new\<close>, \<^verbatim>\<open>webinspector_send\<close>; success when
  the list is used up), the local \<^verbatim>\<open>dtoc\<close> (whether the other pump was started) and the
  messages forwarded.
\<close>

record socket_info =
  server_fd :: int
  client_fd :: int
  inspector :: "nat option"
  timeout :: nat
  format_xml :: int
  stop_ctod :: int
  stop_dtoc :: int

record relay_state =
  info :: socket_info
  quit_flag :: int
  client_in :: "sock_event list"
  recv_calls :: nat
  dev_ops :: "bool list"
  dtoc :: bool
  forwarded :: "string list"

definition dev_op :: "relay_state \<Rightarrow> bool \<times> relay_state" where
  "dev_op st = (case dev_ops st of [] \<Rightarrow> (True, st) | b # bs \<Rightarrow> (b, st\<lparr>dev_ops := bs\<rparr>))"

definition start_service :: "relay_state \<Rightarrow> bool \<times> relay_state" where
  "start_service st =
     (let r = dev_op st in
      if fst r then (True, (snd r)\<lparr>info := (info (snd r))\<lparr>inspector := Some 0\<rparr>\<rparr>)
      else (False, snd r))"

definition thread_new_dtoc :: "relay_state \<Rightarrow> bool \<times> relay_state" where
  "thread_new_dtoc st =
     (let r = dev_op st in if fst r then (True, (snd r)\<lparr>dtoc := True\<rparr>) else (False, snd r))"

text \<open>The conditions of the two \<^verbatim>\<open>while\<close> loops.\<close>

definition ctod_cond :: "relay_state \<Rightarrow> bool" where
  "ctod_cond st =
     (quit_flag st = 0 \<and> stop_ctod (info st) = 0 \<and> 0 < client_fd (info st)
      \<and> 0 < server_fd (info st))"

definition dtoc_cond :: "relay_state \<Rightarrow> bool" where
  "dtoc_cond st =
     (quit_flag st = 0 \<and> stop_dtoc (info st) = 0 \<and> 0 < client_fd (info st)
      \<and> 0 < server_fd (info st))"

text \<open>
  One round of the loop of \<^verbatim>\<open>thread_client_to_device\<close>: \<open>forward\<close> is the part after the
  message was converted, \<open>ctod_iter\<close> the whole round.
\<close>

definition forward :: "string \<Rightarrow> relay_state \<Rightarrow> loop_ctl \<times> relay_state" where
  "forward payload st =
     (let r1 = (if inspector (info st) = None then start_service st else (True, st)) in
      if \<not> fst r1 then (Break, snd r1)
      else
        let r2 = (if \<not> dtoc (snd r1) then thread_new_dtoc (snd r1) else (True, snd r1)) in
        if \<not> fst r2 then (Break, snd r2)
        else
          let r3 = dev_op (snd r2) in
          if \<not> fst r3 then (Break, snd r3)
          else (Continue, (snd r3)\<lparr>forwarded := forwarded (snd r3) @ [payload]\<rparr>))"

definition ctod_iter :: "relay_state \<Rightarrow> (loop_ctl \<times> relay_state) option" where
  "ctod_iter st =
     (case receive_message_timeout 4 [] 0 (client_in st) of
        None \<Rightarrow> None
      | Some (recv_len, network_mlen, k, es) \<Rightarrow>
          let st1 = st\<lparr>client_in := es, recv_calls := recv_calls st + k\<rparr> in
          if recv_len < 0 then Some (Break, st1)
          else
            let message_length = be32toh network_mlen in
            if message_length = 0 \<or> buffer_size \<le> message_length then Some (Break, st1)
            else
              (case receive_message_timeout message_length [] 0 es of
                 None \<Rightarrow> None
               | Some (recv_len2, buffer, k2, es2) \<Rightarrow>
                   let st2 = st1\<lparr>client_in := es2, recv_calls := recv_calls st1 + k2\<rparr> in
                   if recv_len2 < 0 then Some (Break, st2)
                   else if 8 < message_length \<and> take 8 buffer = ''bplist00'' then
                     Some (forward buffer st2)
                   else if 5 < message_length \<and> take 5 buffer = ''<?xml'' then
                     Some (forward buffer st2)
                   else Some (Break, st2)))"

lemma receive_message_timeout_size:
  "receive_message_timeout len data calls es = Some (r, d, k, es') \<Longrightarrow> length data < len \<Longrightarrow>
     sock_size es' < sock_size es"
proof (induction len data calls es rule: receive_message_timeout.induct)
  case (1 len data calls)
  then show ?case
    by (simp add: receive_message_timeout.simps(1))
next
  case (2 len data calls n es)
  note unfold = receive_message_timeout.simps(2) [of len data calls n es]
  show ?case
  proof (cases "(n = 0 \<or> n = 11) \<and> length data < len")
    case True
    with "2.prems" have "receive_message_timeout len data (Suc calls) es = Some (r, d, k, es')"
      by (simp add: unfold)
    with "2.IH" True have "sock_size es' < sock_size es"
      by simp
    then show ?thesis
      by simp
  next
    case False
    with "2.prems" have "es' = es"
      by (auto simp: unfold split: if_splits)
    then show ?thesis
      by simp
  qed
next
  case (3 len data calls bs es)
  let ?room = "len - length data"
  let ?es1 = "if length bs \<le> ?room then es else Sock_data (drop ?room bs) # es"
  note unfold = receive_message_timeout.simps(3) [of len data calls bs es]
  have small: "sock_size ?es1 \<le> sock_size (Sock_data bs # es)"
    by simp
  have eq: "receive_message_timeout len data calls (Sock_data bs # es) =
      (if length (data @ take ?room bs) < len
       then receive_message_timeout len (data @ take ?room bs) (Suc calls) ?es1
       else Some (int len, data @ take ?room bs, Suc calls, ?es1))"
    by (simp only: unfold Let_def)
  show ?case
  proof (cases "length (data @ take ?room bs) < len")
    case True
    from "3.prems" have "receive_message_timeout len (data @ take ?room bs) (Suc calls) ?es1
        = Some (r, d, k, es')"
      unfolding eq by (simp only: True if_True)
    from "3.IH" [OF refl refl refl True this True] small show ?thesis
      by simp
  next
    case False
    from "3.prems" have "Some (int len, data @ take ?room bs, Suc calls, ?es1) = Some (r, d, k, es')"
      unfolding eq by (simp only: False if_False)
    then have "es' = ?es1"
      by simp
    moreover from "3.prems"(2) have "0 < ?room"
      by simp
    ultimately show ?thesis
      by auto
  qed
qed

lemma dev_op_client [simp]: "client_in (snd (dev_op st)) = client_in st"
  by (simp add: dev_op_def split: list.splits)

lemma forward_client [simp]: "client_in (snd (forward payload st)) = client_in st"
  by (simp add: forward_def start_service_def thread_new_dtoc_def Let_def)

lemma ctod_iter_rejects:
  assumes "receive_message_timeout 4 [] 0 (client_in st) = Some (recv_len, hdr, k, es)"
    and "recv_len < 0 \<or> be32toh hdr = 0 \<or> buffer_size \<le> be32toh hdr"
  shows "ctod_iter st = Some (Break, st\<lparr>client_in := es, recv_calls := recv_calls st + k\<rparr>)"
proof (cases "recv_len < 0")
  case True
  then show ?thesis
    by (simp add: ctod_iter_def assms(1))
next
  case False
  with assms(2) show ?thesis
    by (simp add: ctod_iter_def assms(1) Let_def)
qed

lemma ctod_iter_payload:
  assumes "receive_message_timeout 4 [] 0 (client_in st) = Some (recv_len, hdr, k, es)"
    and "\<not> recv_len < 0" and "be32toh hdr \<noteq> 0" and "\<not> buffer_size \<le> be32toh hdr"
  shows "ctod_iter st =
     (case receive_message_timeout (be32toh hdr) [] 0 es of
        None \<Rightarrow> None
      | Some (recv_len2, buffer, k2, es2) \<Rightarrow>
          let st2 = st\<lparr>client_in := es2, recv_calls := recv_calls st + k + k2\<rparr> in
          if recv_len2 < 0 then Some (Break, st2)
          else if 8 < be32toh hdr \<and> take 8 buffer = ''bplist00'' then Some (forward buffer st2)
          else if 5 < be32toh hdr \<and> take 5 buffer = ''<?xml'' then Some (forward buffer st2)
          else Some (Break, st2))"
  using assms(2-4) by (simp add: ctod_iter_def assms(1) Let_def split: option.splits)

lemma ctod_iter_size:
  assumes "ctod_iter st = Some (c, st')"
  shows "sock_size (client_in st') < sock_size (client_in st)"
proof -
  from assms obtain recv_len hdr k es where
    r1: "receive_message_timeout 4 [] 0 (client_in st) = Some (recv_len, hdr, k, es)"
    by (cases "receive_message_timeout 4 [] 0 (client_in st)") (auto simp: ctod_iter_def)
  have s1: "sock_size es < sock_size (client_in st)"
    using receive_message_timeout_size [OF r1] by simp
  show ?thesis
  proof (cases "recv_len < 0 \<or> be32toh hdr = 0 \<or> buffer_size \<le> be32toh hdr")
    case True
    from ctod_iter_rejects [OF r1 True] assms s1 show ?thesis
      by auto
  next
    case False
    then have f: "\<not> recv_len < 0" "be32toh hdr \<noteq> 0" "\<not> buffer_size \<le> be32toh hdr"
      by auto
    note it = ctod_iter_payload [OF r1 f]
    from assms it obtain recv_len2 buffer k2 es2 where
      r2: "receive_message_timeout (be32toh hdr) [] 0 es = Some (recv_len2, buffer, k2, es2)"
      by (cases "receive_message_timeout (be32toh hdr) [] 0 es") auto
    have s2: "sock_size es2 < sock_size es"
      using receive_message_timeout_size [OF r2] f(2) by simp
    let ?st2 = "st\<lparr>client_in := es2, recv_calls := recv_calls st + k + k2\<rparr>"
    from assms it r2 have "(c, st') = (Break, ?st2) \<or> (c, st') = forward buffer ?st2"
      by (auto simp: Let_def split: if_splits)
    then have "client_in st' = es2"
    proof
      assume "(c, st') = (Break, ?st2)"
      then show ?thesis by simp
    next
      assume "(c, st') = forward buffer ?st2"
      then have "st' = snd (forward buffer ?st2)"
        by (metis snd_conv)
      then show ?thesis by simp
    qed
    with s1 s2 show ?thesis
      by simp
  qed
qed

text \<open>
  The loop, and the thread: \<^verbatim>\<open>dtoc\<close> starts as 0, and behind the loop the thread closes
  the client socket, sets \<^verbatim>\<open>client_fd = -1\<close> and \<^verbatim>\<open>stop_dtoc = 1\<close>. Behind its own loop
  \<^verbatim>\<open>thread_device_to_client\<close> sets \<^verbatim>\<open>client_fd = -1\<close> and \<^verbatim>\<open>stop_ctod = 1\<close>.
\<close>

function ctod_loop :: "relay_state \<Rightarrow> relay_state option" where
  "ctod_loop st =
     (if ctod_cond st then
        (case ctod_iter st of
           None \<Rightarrow> None
         | Some (Break, st1) \<Rightarrow> Some st1
         | Some (Continue, st1) \<Rightarrow> ctod_loop st1)
      else Some st)"
  by pat_completeness auto
termination
  by (relation "measure (\<lambda>st. sock_size (client_in st))") (auto intro: ctod_iter_size)

declare ctod_loop.simps [simp del]

definition ctod_shutdown :: "socket_info \<Rightarrow> socket_info" where
  "ctod_shutdown s = s\<lparr>client_fd := - 1, stop_dtoc := 1\<rparr>"

definition dtoc_shutdown :: "socket_info \<Rightarrow> socket_info" where
  "dtoc_shutdown s = s\<lparr>client_fd := - 1, stop_ctod := 1\<rparr>"

definition thread_client_to_device :: "relay_state \<Rightarrow> relay_state option" where
  "thread_client_to_device st =
     map_option (\<lambda>st1. st1\<lparr>info := ctod_shutdown (info st1)\<rparr>) (ctod_loop (st\<lparr>dtoc := False\<rparr>))"

text \<open>
  The one \<^verbatim>\<open>socket_info\<close> of \<^verbatim>\<open>main\<close> is handed to the handler of every connection, so
  all threads write the same record. These are all the assignments to it once \<^verbatim>\<open>main\<close> has
  reached its accept loop: \<^verbatim>\<open>client_fd = socket_accept(...)\<close> in \<^verbatim>\<open>main\<close>, \<^verbatim>\<open>inspector\<close> set by
  \<^verbatim>\<open>webinspector_client_start_service\<close>, and the two assignments at the end of each pump.
  A run of the program, with whatever interleaving of its threads, makes a sequence of
  them. \<open>main_startup\<close> is the record when \<^verbatim>\<open>main\<close> reaches the loop, from the timeout, the
  format, the server socket and whatever \<^verbatim>\<open>client_fd\<close> holds before the first accept.
\<close>

datatype info_write =
  Accept_client int | Set_inspector nat | Pump_close_client | Ctod_set_stop_dtoc | Dtoc_set_stop_ctod

fun apply_write :: "info_write \<Rightarrow> socket_info \<Rightarrow> socket_info" where
  "apply_write (Accept_client fd) s = s\<lparr>client_fd := fd\<rparr>"
| "apply_write (Set_inspector h) s = s\<lparr>inspector := Some h\<rparr>"
| "apply_write Pump_close_client s = s\<lparr>client_fd := - 1\<rparr>"
| "apply_write Ctod_set_stop_dtoc s = s\<lparr>stop_dtoc := 1\<rparr>"
| "apply_write Dtoc_set_stop_ctod s = s\<lparr>stop_ctod := 1\<rparr>"

fun run_writes :: "info_write list \<Rightarrow> socket_info \<Rightarrow> socket_info" where
  "run_writes [] s = s"
| "run_writes (w # ws) s = run_writes ws (apply_write w s)"

definition main_startup :: "nat \<Rightarrow> int \<Rightarrow> int \<Rightarrow> int \<Rightarrow> socket_info" where
  "main_startup tmo xml sfd cfd =
     \<lparr>server_fd = sfd, client_fd = cfd, inspector = None, timeout = tmo, format_xml = xml,
      stop_ctod = 0, stop_dtoc = 0\<rparr>"

lemma shutdown_writes:
  "ctod_shutdown s = run_writes [Pump_close_client, Ctod_set_stop_dtoc] s"
  "dtoc_shutdown s = run_writes [Pump_close_client, Dtoc_set_stop_ctod] s"
  by (simp_all add: ctod_shutdown_def dtoc_shutdown_def)

lemma run_writes_stop:
  "stop_ctod s = 1 \<Longrightarrow> stop_ctod (run_writes ws s) = 1"
  "stop_dtoc s = 1 \<Longrightarrow> stop_dtoc (run_writes ws s) = 1"
proof (induction ws arbitrary: s)
  case Nil
  {
    case 1 then show ?case by simp
  next
    case 2 then show ?case by simp
  }
next
  case (Cons w ws)
  {
    case 1
    then have "stop_ctod (apply_write w s) = 1"
      by (cases w) simp_all
    with Cons.IH(1) show ?case by simp
  next
    case 2
    then have "stop_dtoc (apply_write w s) = 1"
      by (cases w) simp_all
    with Cons.IH(2) show ?case by simp
  }
qed

lemma receive_prefix:
  "4 \<le> length bs \<Longrightarrow>
     receive_message_timeout 4 [] 0 (Sock_data bs # es)
       = Some (4, take 4 bs, 1, if length bs \<le> 4 then es else Sock_data (drop 4 bs) # es)"
  by (simp add: receive_message_timeout.simps Let_def)

text \<open>
  C9 (invalid length prefix). When the pump from the client to the device has received
  the four bytes of a length prefix and they decode, big-endian, to 0 or to 131072
  (\<open>128 * 1024\<close>, the size of the receive buffer) or more, the round ends the loop with the
  socket as the prefix read left it and no receive call beyond those of the prefix read:
  no byte of a payload is asked for. The thread then closes the connection and sets
  \<^verbatim>\<open>stop_dtoc\<close>.
\<close>

theorem invalid_length_prefix:
  assumes "receive_message_timeout 4 [] 0 (client_in st) = Some (recv_len, network_mlen, k, es)"
    and "0 \<le> recv_len"
    and "be32toh network_mlen = 0 \<or> buffer_size \<le> be32toh network_mlen"
  shows "buffer_size = 128 * 1024
     \<and> ctod_iter st = Some (Break, st\<lparr>client_in := es, recv_calls := recv_calls st + k\<rparr>)
     \<and> (ctod_cond st \<longrightarrow>
          thread_client_to_device st =
            Some (st\<lparr>dtoc := False, client_in := es, recv_calls := recv_calls st + k,
                      info := ctod_shutdown (info st)\<rparr>))"
proof -
  let ?st = "st\<lparr>dtoc := False\<rparr>"
  have it: "ctod_iter st = Some (Break, st\<lparr>client_in := es, recv_calls := recv_calls st + k\<rparr>)"
    using ctod_iter_rejects [OF assms(1)] assms(3) by simp
  have "ctod_iter ?st = Some (Break, ?st\<lparr>client_in := es, recv_calls := recv_calls ?st + k\<rparr>)"
    using ctod_iter_rejects [of ?st recv_len network_mlen k es] assms(1,3) by simp
  moreover have "ctod_cond ?st = ctod_cond st"
    by (simp add: ctod_cond_def)
  ultimately show ?thesis
    using it by (simp add: buffer_size_def thread_client_to_device_def ctod_loop.simps [of ?st])
qed

text \<open>
  A connection on which the prefix \<open>00 02 00 00\<close> (131072) or \<open>00 00 00 00\<close> arrives together
  with what would be a payload: one receive call, and the payload is still in the socket.
\<close>

definition example_relay :: "string \<Rightarrow> relay_state" where
  "example_relay bs =
     \<lparr>info = main_startup 1000 0 3 4, quit_flag = 0, client_in = [Sock_data bs], recv_calls = 0,
      dev_ops = [], dtoc = False, forwarded = []\<rparr>"

theorem invalid_length_prefix_witness:
  "be32toh [CHR 0x00, CHR 0x02, CHR 0x00, CHR 0x00] = 131072
   \<and> map_option (client_in \<circ> snd)
        (ctod_iter (example_relay ([CHR 0x00, CHR 0x02, CHR 0x00, CHR 0x00] @ ''bplist00 and more'')))
       = Some [Sock_data ''bplist00 and more'']
   \<and> map_option (recv_calls \<circ> snd)
        (ctod_iter (example_relay ([CHR 0x00, CHR 0x02, CHR 0x00, CHR 0x00] @ ''bplist00 and more'')))
       = Some 1
   \<and> map_option fst
        (ctod_iter (example_relay ([CHR 0x00, CHR 0x02, CHR 0x00, CHR 0x00] @ ''bplist00 and more'')))
       = Some Break
   \<and> map_option fst
        (ctod_iter (example_relay ([CHR 0x00, CHR 0x00, CHR 0x00, CHR 0x00] @ ''bplist00 and more'')))
       = Some Break
   \<and> map_option (client_in \<circ> snd)
        (ctod_iter (example_relay ([CHR 0x00, CHR 0x00, CHR 0x00, CHR 0x00] @ ''bplist00 and more'')))
       = Some [Sock_data ''bplist00 and more'']
   \<and> map_option (stop_dtoc \<circ> info)
        (thread_client_to_device
          (example_relay ([CHR 0x00, CHR 0x00, CHR 0x00, CHR 0x00] @ ''bplist00 and more'')))
       = Some 1"
proof -
  let ?big = "example_relay ([CHR 0x00, CHR 0x02, CHR 0x00, CHR 0x00] @ ''bplist00 and more'')"
  let ?zero = "example_relay ([CHR 0x00, CHR 0x00, CHR 0x00, CHR 0x00] @ ''bplist00 and more'')"
  have len: "be32toh [CHR 0x00, CHR 0x02, CHR 0x00, CHR 0x00] = 131072"
    "be32toh [CHR 0x00, CHR 0x00, CHR 0x00, CHR 0x00] = 0"
    by (simp_all add: be32toh_def)
  have r: "receive_message_timeout 4 [] 0 (client_in ?big)
      = Some (4, [CHR 0x00, CHR 0x02, CHR 0x00, CHR 0x00], 1, [Sock_data ''bplist00 and more''])"
    "receive_message_timeout 4 [] 0 (client_in ?zero)
      = Some (4, [CHR 0x00, CHR 0x00, CHR 0x00, CHR 0x00], 1, [Sock_data ''bplist00 and more''])"
    by (simp_all add: example_relay_def receive_prefix)
  have c: "ctod_cond ?zero"
    by (simp add: ctod_cond_def example_relay_def main_startup_def)
  from invalid_length_prefix [OF r(1)] invalid_length_prefix [OF r(2)] len c show ?thesis
    by (simp add: buffer_size_def example_relay_def ctod_shutdown_def)
qed

text \<open>
  For comparison, the prefix \<open>00 00 00 09\<close> with a payload of nine bytes: a second receive
  call reads the payload, the message is forwarded and the loop goes on.
\<close>

lemma valid_length_prefix_example:
  "be32toh [CHR 0x00, CHR 0x00, CHR 0x00, CHR 0x09] = 9
   \<and> map_option fst
        (ctod_iter (example_relay ([CHR 0x00, CHR 0x00, CHR 0x00, CHR 0x09] @ ''bplist00x'')))
       = Some Continue
   \<and> map_option (client_in \<circ> snd)
        (ctod_iter (example_relay ([CHR 0x00, CHR 0x00, CHR 0x00, CHR 0x09] @ ''bplist00x''))) = Some []
   \<and> map_option (recv_calls \<circ> snd)
        (ctod_iter (example_relay ([CHR 0x00, CHR 0x00, CHR 0x00, CHR 0x09] @ ''bplist00x''))) = Some 2
   \<and> map_option (forwarded \<circ> snd)
        (ctod_iter (example_relay ([CHR 0x00, CHR 0x00, CHR 0x00, CHR 0x09] @ ''bplist00x'')))
       = Some [''bplist00x'']"
proof -
  let ?st = "example_relay ([CHR 0x00, CHR 0x00, CHR 0x00, CHR 0x09] @ ''bplist00x'')"
  have len: "be32toh [CHR 0x00, CHR 0x00, CHR 0x00, CHR 0x09] = 9"
    by (simp add: be32toh_def)
  have r1: "receive_message_timeout 4 [] 0 (client_in ?st)
      = Some (4, [CHR 0x00, CHR 0x00, CHR 0x00, CHR 0x09], 1, [Sock_data ''bplist00x''])"
    by (simp add: example_relay_def receive_prefix)
  have r2: "receive_message_timeout 9 [] 0 [Sock_data ''bplist00x''] = Some (9, ''bplist00x'', 1, [])"
    by (simp add: receive_message_timeout.simps Let_def)
  from ctod_iter_payload [OF r1] len r2 show ?thesis
    by (simp add: buffer_size_def forward_def start_service_def thread_new_dtoc_def dev_op_def
        example_relay_def main_startup_def Let_def)
qed

text \<open>
  C10 (the stop flags are never reset). The flags are 0 when \<^verbatim>\<open>main\<close> reaches its accept
  loop; the pump from the client sets \<^verbatim>\<open>stop_dtoc\<close> to 1 at its end, the pump from the device
  sets \<^verbatim>\<open>stop_ctod\<close> to 1 at its end; no assignment to the shared record makes a flag that
  is 1 anything else. So after a pump has ended, whatever the threads do then, a
  connection accepted later finds the flag set: the condition of the loop of its pump is
  false from the start, and the pump from the client ends without a round and sets
  \<^verbatim>\<open>client_fd = -1\<close> again.
\<close>

theorem stop_flags_sticky:
  "stop_ctod (main_startup tmo xml sfd cfd) = 0 \<and> stop_dtoc (main_startup tmo xml sfd cfd) = 0
   \<and> stop_dtoc (ctod_shutdown s) = 1 \<and> stop_ctod (dtoc_shutdown s) = 1
   \<and> (\<forall>st st'. thread_client_to_device st = Some st' \<longrightarrow> stop_dtoc (info st') = 1)
   \<and> (stop_ctod s = 1 \<longrightarrow> stop_ctod (run_writes ws s) = 1)
   \<and> (stop_dtoc s = 1 \<longrightarrow> stop_dtoc (run_writes ws s) = 1)
   \<and> stop_dtoc (run_writes (ws @ [Accept_client fd]) (ctod_shutdown s)) = 1
   \<and> stop_ctod (run_writes (ws @ [Accept_client fd]) (dtoc_shutdown s)) = 1
   \<and> (\<forall>st. info st = run_writes (ws @ [Accept_client fd]) (dtoc_shutdown s) \<longrightarrow>
          \<not> ctod_cond st
          \<and> thread_client_to_device st = Some (st\<lparr>dtoc := False, info := ctod_shutdown (info st)\<rparr>))
   \<and> (\<forall>st. info st = run_writes (ws @ [Accept_client fd]) (ctod_shutdown s) \<longrightarrow> \<not> dtoc_cond st)"
proof -
  have a: "stop_dtoc (ctod_shutdown s) = 1" "stop_ctod (dtoc_shutdown s) = 1"
    by (simp_all add: ctod_shutdown_def dtoc_shutdown_def)
  have b: "stop_dtoc (run_writes (ws @ [Accept_client fd]) (ctod_shutdown s)) = 1"
    "stop_ctod (run_writes (ws @ [Accept_client fd]) (dtoc_shutdown s)) = 1"
    using run_writes_stop a by simp_all
  have c: "stop_dtoc (info st') = 1" if "thread_client_to_device st = Some st'" for st st'
    using that by (auto simp: thread_client_to_device_def ctod_shutdown_def)
  have d: "thread_client_to_device st = Some (st\<lparr>dtoc := False, info := ctod_shutdown (info st)\<rparr>)"
    if "\<not> ctod_cond st" for st
  proof -
    from that have "\<not> ctod_cond (st\<lparr>dtoc := False\<rparr>)"
      by (simp add: ctod_cond_def)
    then show ?thesis
      by (simp add: thread_client_to_device_def ctod_loop.simps [of "st\<lparr>dtoc := False\<rparr>"])
  qed
  have e: "\<not> ctod_cond st"
    if "info st = run_writes (ws @ [Accept_client fd]) (dtoc_shutdown s)" for st
    using that b(2) by (simp add: ctod_cond_def)
  have f: "\<not> dtoc_cond st"
    if "info st = run_writes (ws @ [Accept_client fd]) (ctod_shutdown s)" for st
    using that b(1) by (simp add: dtoc_cond_def)
  from a b c d e f run_writes_stop [of s ws] show ?thesis
    by (simp add: main_startup_def)
qed

text \<open>
  A first connection whose pumps both end, then a second connection: both flags are 1,
  the new client socket is 6, and the condition of the loop of its pump is false.
\<close>

theorem stop_flags_sticky_witness:
  "stop_ctod (run_writes [Accept_client 5, Set_inspector 0, Pump_close_client, Dtoc_set_stop_ctod,
      Pump_close_client, Ctod_set_stop_dtoc, Accept_client 6] (main_startup 1000 0 3 4)) = 1
   \<and> stop_dtoc (run_writes [Accept_client 5, Set_inspector 0, Pump_close_client, Dtoc_set_stop_ctod,
      Pump_close_client, Ctod_set_stop_dtoc, Accept_client 6] (main_startup 1000 0 3 4)) = 1
   \<and> client_fd (run_writes [Accept_client 5, Set_inspector 0, Pump_close_client, Dtoc_set_stop_ctod,
      Pump_close_client, Ctod_set_stop_dtoc, Accept_client 6] (main_startup 1000 0 3 4)) = 6
   \<and> \<not> ctod_cond ((example_relay [])\<lparr>info := run_writes [Accept_client 5, Set_inspector 0,
      Pump_close_client, Dtoc_set_stop_ctod, Pump_close_client, Ctod_set_stop_dtoc, Accept_client 6]
      (main_startup 1000 0 3 4)\<rparr>)"
proof -
  let ?s1 = "run_writes [Accept_client 5, Set_inspector 0] (main_startup 1000 0 3 4)"
  have eq: "run_writes [Accept_client 5, Set_inspector 0, Pump_close_client, Dtoc_set_stop_ctod,
      Pump_close_client, Ctod_set_stop_dtoc, Accept_client 6] (main_startup 1000 0 3 4)
     = run_writes ([Pump_close_client, Ctod_set_stop_dtoc] @ [Accept_client 6]) (dtoc_shutdown ?s1)"
    by (simp add: dtoc_shutdown_def)
  note t = stop_flags_sticky [of 1000 0 3 4 ?s1 "[Pump_close_client, Ctod_set_stop_dtoc]" 6]
  from t show ?thesis
    unfolding eq by (auto simp: main_startup_def dtoc_shutdown_def)
qed

end
